theory Spec2Isabelle
  imports Main "HOL-Library.Word" "HOL-Library.Monad_Syntax" "HOL-Library.Sublist"
begin

section \<open>Go values and the standard-library functions used by finder/index.go\<close>

text \<open>
  A Go slice is either \<^verbatim>\<open>nil\<close> or a (possibly empty) sequence; \<^verbatim>\<open>[]byte\<close> is a
  \<open>char slice\<close>, \<^verbatim>\<open>[][]byte\<close> a \<open>string slice\<close>. A Go \<^verbatim>\<open>string\<close> is a byte
  sequence, here \<open>string\<close>.

  A call that does not return normally (a run-time panic on a bad index, or recursion
  without end, which in Go exhausts the stack) has the value \<open>None\<close>.
\<close>

datatype 'a slice = NilSlice | Slice "'a list"

type_synonym uint8 = "8 word"

text \<open>\<^verbatim>\<open>strings.Count(s, sep)\<close> for a one-byte \<^verbatim>\<open>sep\<close>.\<close>

definition Count :: "string \<Rightarrow> char \<Rightarrow> nat" where
  "Count s sep = length (filter (\<lambda>c. c = sep) s)"

text \<open>\<^verbatim>\<open>strings.HasPrefix\<close> and \<^verbatim>\<open>strings.HasSuffix\<close>, as the library writes them.\<close>

definition HasPrefix :: "string \<Rightarrow> string \<Rightarrow> bool" where
  "HasPrefix s p \<longleftrightarrow> length s \<ge> length p \<and> take (length p) s = p"

definition HasSuffix :: "string \<Rightarrow> string \<Rightarrow> bool" where
  "HasSuffix s p \<longleftrightarrow> length s \<ge> length p \<and> drop (length s - length p) s = p"

text \<open>
  \<^verbatim>\<open>strings.IndexAny(s, chars)\<close> and \<^verbatim>\<open>strings.LastIndexAny(s, chars)\<close> for a set
  \<^verbatim>\<open>chars\<close> of one-byte characters: the index of the first (last) byte of \<^verbatim>\<open>s\<close> that is in
  \<^verbatim>\<open>chars\<close>, or \<open>-1\<close>.
\<close>

fun IndexAny :: "string \<Rightarrow> string \<Rightarrow> int" where
  "IndexAny [] chars = -1"
| "IndexAny (c # s) chars =
     (if c \<in> set chars then 0
      else (let i = IndexAny s chars in if i = -1 then -1 else i + 1))"

fun LastIndexAny_from :: "string \<Rightarrow> string \<Rightarrow> nat \<Rightarrow> int" where
  "LastIndexAny_from s chars 0 = -1"
| "LastIndexAny_from s chars (Suc i) =
     (if s ! i \<in> set chars then int i else LastIndexAny_from s chars i)"

definition LastIndexAny :: "string \<Rightarrow> string \<Rightarrow> int" where
  "LastIndexAny s chars = LastIndexAny_from s chars (length s)"

text \<open>
  The slice expressions \<^verbatim>\<open>s[:w]\<close> and \<^verbatim>\<open>s[w:]\<close>; out of range they panic.
\<close>

definition slice_to :: "string \<Rightarrow> int \<Rightarrow> string option" where
  "slice_to s w = (if 0 \<le> w \<and> w \<le> int (length s) then Some (take (nat w) s) else None)"

definition slice_from :: "string \<Rightarrow> int \<Rightarrow> string option" where
  "slice_from s w = (if 0 \<le> w \<and> w \<le> int (length s) then Some (drop (nat w) s) else None)"

text \<open>
  \<^verbatim>\<open>bytes.Split(s, sep)\<close> for a one-byte \<^verbatim>\<open>sep\<close>: the pieces between the separators,
  one more than there are separators (so the empty input gives one empty piece).
\<close>

fun Split :: "string \<Rightarrow> char \<Rightarrow> string list" where
  "Split [] sep = [[]]"
| "Split (c # s) sep =
     (if c = sep then [] # Split s sep
      else (case Split s sep of r # rs \<Rightarrow> (c # r) # rs | [] \<Rightarrow> [[c]]))"

section \<open>Collaborators outside finder/index.go\<close>

subsection \<open>Package config\<close>

text \<open>
  Modelled from the spec: package \<^verbatim>\<open>config\<close> is not among the sources. The spec gives
  the direction as a tri-state \<open>{Auto, Forward, Reversed}\<close> and a reverse rule as
  \<open>{prefix, suffix, regex, forced-direction}\<close>. The three codes are distinct
  \<^verbatim>\<open>uint8\<close> constants, Auto being the zero value (the \<^verbatim>\<open>reverse\<close> field of a new finder is
  never set and the spec has it start as Auto); \<^verbatim>\<open>IndexReverse\<close> is the table from the
  configured word to its code, and reading a Go map at an absent key gives the zero value.
  A compiled regular expression is represented by what \<^verbatim>\<open>checkReverses\<close> asks of it:
  whether \<^verbatim>\<open>FindStringIndex\<close> finds a match in the string; \<open>None\<close> is the nil pointer.
\<close>

definition IndexAuto :: uint8 where "IndexAuto = 0"
definition IndexDirect :: uint8 where "IndexDirect = 1"
definition IndexReversed :: uint8 where "IndexReversed = 2"

definition IndexReverse :: "string \<Rightarrow> uint8" where
  "IndexReverse key =
     (if key = ''direct'' then IndexDirect
      else if key = ''auto'' then IndexAuto
      else if key = ''reversed'' then IndexReversed
      else 0)"

record IndexReverseRule =
  Suffix :: string
  Prefix :: string
  Regex :: "(string \<Rightarrow> bool) option"
  Reverse :: string

subsection \<open>Package where\<close>

text \<open>
  Modelled from the spec: package \<^verbatim>\<open>where\<close> is not among the sources. The spec describes
  the predicate DSL as an equality predicate on a column, a hierarchy-glob predicate on a
  string column and free-form formatted clauses, combined with logical AND; a predicate is
  kept here as the list of its conjuncts, unrendered. \<^verbatim>\<open>IndexWildcard\<close> and
  \<^verbatim>\<open>IndexLastWildcard\<close> give the byte position of the first and the last wildcard
  character of a pattern, \<open>-1\<close> when there is none; which bytes are wildcard syntax is the
  parameter \<open>wild\<close>.
\<close>

datatype arg = IntArg int | StrArg string

datatype clause = Eq string arg | TreeGlob string string | Fmt string "string list"

type_synonym Where = "clause list"

definition New :: Where where
  "New = []"

definition And :: "Where \<Rightarrow> clause \<Rightarrow> Where" where
  "And w c = w @ [c]"

definition Andf :: "Where \<Rightarrow> string \<Rightarrow> string list \<Rightarrow> Where" where
  "Andf w format args = w @ [Fmt format args]"

definition IndexWildcard :: "string \<Rightarrow> string \<Rightarrow> int" where
  "IndexWildcard wild target = IndexAny target wild"

definition IndexLastWildcard :: "string \<Rightarrow> string \<Rightarrow> int" where
  "IndexLastWildcard wild target = LastIndexAny target wild"

subsection \<open>Path reversal\<close>

text \<open>
  Modelled from the spec: \<^verbatim>\<open>ReverseBytes\<close> and \<^verbatim>\<open>ReverseString\<close> are not among the
  sources. The spec defines reversal as byte-order inversion with special handling so that
  the final hierarchy separator, if present, stays final rather than becoming first, and
  has the pattern reversed by the same rule. Both return a new value and leave their
  argument as it is.
\<close>

definition ReverseBytes :: "string \<Rightarrow> string" where
  "ReverseBytes target =
     (if target \<noteq> [] \<and> last target = CHR ''.'' then rev (butlast target) @ ''.''
      else rev target)"

definition ReverseString :: "string \<Rightarrow> string" where
  "ReverseString target = ReverseBytes target"

subsection \<open>The statement sent to the store\<close>

text \<open>
  The text \<^verbatim>\<open>SELECT Path FROM <table> WHERE <w> GROUP BY Path FORMAT TabSeparatedRaw\<close>,
  kept as its two holes.
\<close>

datatype sql = SelectPath string Where

section \<open>finder/index.go\<close>

definition ReverseLevelOffset :: int where "ReverseLevelOffset = 10000"
definition TreeLevelOffset :: int where "TreeLevelOffset = 20000"
definition ReverseTreeLevelOffset :: int where "ReverseTreeLevelOffset = 30000"

definition DefaultTreeDate :: string where "DefaultTreeDate = ''1970-02-12''"

definition queryAuto :: uint8 where "queryAuto = IndexAuto"
definition queryDirect :: uint8 where "queryDirect = IndexDirect"
definition queryReversed :: uint8 where "queryReversed = IndexReversed"

record 'o IndexFinder =
  url :: string
  table :: string
  opts :: 'o
  dailyEnabled :: bool
  confReverse :: uint8
  confReverses :: "IndexReverseRule list"
  reverse :: uint8
  body :: "char slice"
  useDaily :: bool

definition NewIndex ::
  "string \<Rightarrow> string \<Rightarrow> bool \<Rightarrow> string \<Rightarrow> IndexReverseRule list \<Rightarrow> 'o \<Rightarrow> 'o IndexFinder" where
  "NewIndex url' table' dailyEnabled' reverse' reverses opts' =
     \<lparr>url = url', table = table', opts = opts', dailyEnabled = dailyEnabled',
      confReverse = IndexReverse reverse', confReverses = reverses,
      reverse = 0, body = NilSlice, useDaily = False\<rparr>"

text \<open>The method \<^verbatim>\<open>where\<close> of the finder.\<close>

definition idx_where :: "'o IndexFinder \<Rightarrow> string \<Rightarrow> int \<Rightarrow> Where" where
  "idx_where idx query levelOffset =
     (let level = int (Count query CHR ''.'') + 1;
          w = New;
          w = And w (Eq ''Level'' (IntArg (level + levelOffset)));
          w = And w (TreeGlob ''Path'' query)
      in w)"

text \<open>The loop of \<^verbatim>\<open>checkReverses\<close> over the rules, then the method itself.\<close>

fun checkReverses_loop :: "IndexReverseRule list \<Rightarrow> uint8 \<Rightarrow> string \<Rightarrow> uint8" where
  "checkReverses_loop [] conf query = conf"
| "checkReverses_loop (rule # rules) conf query =
     (if length (Prefix rule) > 0 \<and> \<not> HasPrefix query (Prefix rule)
        then checkReverses_loop rules conf query
      else if length (Suffix rule) > 0 \<and> \<not> HasSuffix query (Suffix rule)
        then checkReverses_loop rules conf query
      else if (case Regex rule of None \<Rightarrow> False | Some re \<Rightarrow> \<not> re query)
        then checkReverses_loop rules conf query
      else IndexReverse (Reverse rule))"

definition checkReverses :: "'o IndexFinder \<Rightarrow> string \<Rightarrow> uint8" where
  "checkReverses idx query = checkReverses_loop (confReverses idx) (confReverse idx) query"

partial_function (option) useReverse ::
  "string \<Rightarrow> 'o IndexFinder \<Rightarrow> string \<Rightarrow> (bool \<times> 'o IndexFinder) option" where
  "useReverse wild idx query =
     (if reverse idx = queryDirect then Some (False, idx)
      else if reverse idx = queryReversed then Some (True, idx)
      else
        let idx = idx\<lparr>reverse := checkReverses idx query\<rparr> in
        if reverse idx \<noteq> queryAuto then useReverse wild idx query
        else
          let w = IndexWildcard wild query in
          if w = -1 then useReverse wild (idx\<lparr>reverse := queryDirect\<rparr>) query
          else do {
            p \<leftarrow> slice_to query w;
            let firstWildcardNode = Count p CHR ''.'';
            let w = IndexLastWildcard wild query;
            s \<leftarrow> slice_from query w;
            let lastWildcardNode = Count s CHR ''.'';
            if firstWildcardNode < lastWildcardNode
              then useReverse wild (idx\<lparr>reverse := queryReversed\<rparr>) query
              else useReverse wild (idx\<lparr>reverse := queryDirect\<rparr>) query
          })"

declare useReverse.simps [code]

text \<open>
  \<^verbatim>\<open>Execute\<close>. The store is the parameter \<open>Query\<close> (\<^verbatim>\<open>clickhouse.Query\<close>, given the
  table of the context, the address, the statement and the options; it answers with the
  body and the error). \<open>unixFormat t layout\<close> is \<^verbatim>\<open>time.Unix(t, 0).Format(layout)\<close> in the
  time zone of the process. \<open>from\<close> and \<open>until\<close> are \<^verbatim>\<open>int64\<close> and only compared with
  zero. The format of the date range ends in a quote character, written \<open>CHR 0x27\<close>.
\<close>

definition Execute ::
  "string \<Rightarrow> (int \<Rightarrow> string \<Rightarrow> string) \<Rightarrow>
   (string \<Rightarrow> string \<Rightarrow> sql \<Rightarrow> 'o \<Rightarrow> char slice \<times> 'e option) \<Rightarrow>
   'o IndexFinder \<Rightarrow> string \<Rightarrow> int \<Rightarrow> int \<Rightarrow> ('e option \<times> 'o IndexFinder) option" where
  "Execute wild unixFormat Query idx query from until = do {
     (_, idx) \<leftarrow> useReverse wild idx query;
     let idx = (if dailyEnabled idx \<and> from > 0 \<and> until > 0
                then idx\<lparr>useDaily := True\<rparr> else idx\<lparr>useDaily := False\<rparr>);
     (levelOffset, idx) \<leftarrow>
       (if useDaily idx then do {
          (r, idx) \<leftarrow> useReverse wild idx query;
          Some (if r then ReverseLevelOffset else 0, idx)
        } else do {
          (r, idx) \<leftarrow> useReverse wild idx query;
          Some (if r then ReverseTreeLevelOffset else TreeLevelOffset, idx)
        });
     (r, idx) \<leftarrow> useReverse wild idx query;
     let query = (if r then ReverseString query else query);
     let w = idx_where idx query levelOffset;
     let w = (if useDaily idx
              then Andf w (''Date >='%s' AND Date <= '%s'' @ [CHR 0x27])
                     [unixFormat from ''2006-01-02'', unixFormat until ''2006-01-02'']
              else And w (Eq ''Date'' (StrArg DefaultTreeDate)));
     let (b, err) = Query (table idx) (url idx) (SelectPath (table idx) w) (opts idx);
     Some (err, idx\<lparr>body := b\<rparr>)
   }"

definition Abs :: "'o IndexFinder \<Rightarrow> string \<Rightarrow> string" where
  "Abs idx v = v"

text \<open>
  The compaction loop of \<^verbatim>\<open>makeList\<close>, on the array of rows, with the counter
  \<^verbatim>\<open>skip\<close> and the index \<^verbatim>\<open>i\<close>; the store \<^verbatim>\<open>rows[i-skip] = rows[i]\<close> panics when
  \<^verbatim>\<open>i-skip\<close> is negative. The array \<^verbatim>\<open>rows\<close> is the one \<^verbatim>\<open>bytes.Split\<close> has just
  allocated: the loop and the reversal loop after it store row values into that array
  and never write a byte of \<^verbatim>\<open>idx.body\<close>, so the body is not part of the loop state.
\<close>

function makeList_loop :: "bool \<Rightarrow> string list \<Rightarrow> nat \<Rightarrow> nat \<Rightarrow> (string list \<times> nat) option" where
  "makeList_loop onlySeries rows skip i =
     (if i < length rows then
        if length (rows ! i) = 0 then makeList_loop onlySeries rows (skip + 1) (i + 1)
        else if onlySeries \<and> last (rows ! i) = CHR ''.''
          then makeList_loop onlySeries rows (skip + 1) (i + 1)
        else if skip > 0 then
          (if skip \<le> i then makeList_loop onlySeries (rows[i - skip := rows ! i]) skip (i + 1)
           else None)
        else makeList_loop onlySeries rows skip (i + 1)
      else Some (rows, skip))"
  by pat_completeness auto
termination
  by (relation "measure (\<lambda>(onlySeries, rows, skip, i). length rows - i)") auto

declare makeList_loop.simps [simp del]

definition makeList ::
  "string \<Rightarrow> 'o IndexFinder \<Rightarrow> bool \<Rightarrow> (string slice \<times> 'o IndexFinder) option" where
  "makeList wild idx onlySeries =
     (case body idx of
        NilSlice \<Rightarrow> Some (Slice [], idx)
      | Slice b \<Rightarrow> do {
          (rows, skip) \<leftarrow> makeList_loop onlySeries (Split b (CHR 0x0A)) 0 0;
          rows \<leftarrow> (if skip \<le> length rows then Some (take (length rows - skip) rows) else None);
          (r, idx) \<leftarrow> useReverse wild idx [];
          Some (Slice (if r then map ReverseBytes rows else rows), idx)
        })"

definition List :: "string \<Rightarrow> 'o IndexFinder \<Rightarrow> (string slice \<times> 'o IndexFinder) option" where
  "List wild idx = makeList wild idx False"

definition Series :: "string \<Rightarrow> 'o IndexFinder \<Rightarrow> (string slice \<times> 'o IndexFinder) option" where
  "Series wild idx = makeList wild idx True"

section \<open>Notions of the specification\<close>

text \<open>
  The invariant of a finder built by \<^verbatim>\<open>NewIndex\<close>: the configured direction is one of the
  three codes of the table.
\<close>

definition conf_ok :: "'o IndexFinder \<Rightarrow> bool" where
  "conf_ok idx \<longleftrightarrow> confReverse idx \<in> {IndexAuto, IndexDirect, IndexReversed}"

text \<open>
  A reverse rule matches a pattern when its non-empty prefix is a prefix of the pattern,
  its non-empty suffix a suffix, and its regular expression, when present, matches;
  absent fields match everything.
\<close>

definition rule_matches :: "IndexReverseRule \<Rightarrow> string \<Rightarrow> bool" where
  "rule_matches rule pattern \<longleftrightarrow>
     (Prefix rule = [] \<or> prefix (Prefix rule) pattern) \<and>
     (Suffix rule = [] \<or> suffix (Suffix rule) pattern) \<and>
     (case Regex rule of None \<Rightarrow> True | Some re \<Rightarrow> re pattern)"

text \<open>
  The wildcard-position heuristic, on the segments of the pattern: a wildcard segment is
  one that holds a wildcard character; \<open>firstWildcardDepth\<close> is the number of separators
  before the first wildcard segment, \<open>lastWildcardDepth\<close> the number of separators from the
  last wildcard segment to the end. A pattern without wildcard goes Forward; otherwise it
  goes Reversed exactly when the first depth is less than the last.
\<close>

definition has_wildcard :: "string \<Rightarrow> string \<Rightarrow> bool" where
  "has_wildcard wild s \<longleftrightarrow> list_ex (\<lambda>c. c \<in> set wild) s"

definition firstWildcardDepth :: "string \<Rightarrow> string \<Rightarrow> nat" where
  "firstWildcardDepth wild pattern =
     length (takeWhile (\<lambda>seg. \<not> has_wildcard wild seg) (Split pattern CHR ''.''))"

definition lastWildcardDepth :: "string \<Rightarrow> string \<Rightarrow> nat" where
  "lastWildcardDepth wild pattern =
     length (takeWhile (\<lambda>seg. \<not> has_wildcard wild seg) (rev (Split pattern CHR ''.'')))"

definition heuristic :: "string \<Rightarrow> string \<Rightarrow> uint8" where
  "heuristic wild pattern =
     (if \<not> has_wildcard wild pattern then IndexDirect
      else if firstWildcardDepth wild pattern < lastWildcardDepth wild pattern then IndexReversed
      else IndexDirect)"

text \<open>The level-offset table of the predicate builder, by direction and daily mode.\<close>

definition levelOffset_table :: "bool \<Rightarrow> bool \<Rightarrow> int" where
  "levelOffset_table reversed daily =
     (if reversed \<and> daily then 10000
      else if \<not> reversed \<and> \<not> daily then 20000
      else if reversed \<and> \<not> daily then 30000
      else 0)"

text \<open>
  The lines the decoder retains: the non-empty ones and, for series only, those that do
  not end in the hierarchy separator.
\<close>

definition retained :: "bool \<Rightarrow> string \<Rightarrow> bool" where
  "retained seriesOnly line \<longleftrightarrow> line \<noteq> [] \<and> \<not> (seriesOnly \<and> last line = CHR ''.'')"

text \<open>A run of decoder calls on one finder, each \<^verbatim>\<open>Series()\<close> (\<open>True\<close>) or \<^verbatim>\<open>List()\<close>.\<close>

fun decode_calls ::
  "string \<Rightarrow> 'o IndexFinder \<Rightarrow> bool list \<Rightarrow> (string slice list \<times> 'o IndexFinder) option" where
  "decode_calls wild idx [] = Some ([], idx)"
| "decode_calls wild idx (onlySeries # calls) = do {
     (rows, idx) \<leftarrow> makeList wild idx onlySeries;
     (rest, idx) \<leftarrow> decode_calls wild idx calls;
     Some (rows # rest, idx)
   }"

section \<open>Direction codes and the cached direction\<close>

lemma codes_distinct:
  "IndexAuto \<noteq> IndexDirect" "IndexAuto \<noteq> IndexReversed" "IndexDirect \<noteq> IndexReversed"
  "IndexDirect \<noteq> IndexAuto" "IndexReversed \<noteq> IndexAuto" "IndexReversed \<noteq> IndexDirect"
  by (simp_all add: IndexAuto_def IndexDirect_def IndexReversed_def)

lemmas query_defs = queryAuto_def queryDirect_def queryReversed_def

lemma useReverse_Direct:
  "reverse idx = IndexDirect \<Longrightarrow> useReverse wild idx q = Some (False, idx)"
  by (subst useReverse.simps) (simp add: query_defs)

lemma useReverse_Reversed:
  "reverse idx = IndexReversed \<Longrightarrow> useReverse wild idx q = Some (True, idx)"
  by (subst useReverse.simps) (simp add: query_defs codes_distinct)

lemma useReverse_set:
  "d = IndexDirect \<or> d = IndexReversed \<Longrightarrow>
   useReverse wild (idx\<lparr>reverse := d\<rparr>) q = Some (d = IndexReversed, idx\<lparr>reverse := d\<rparr>)"
  by (auto simp: useReverse_Direct useReverse_Reversed codes_distinct)

lemma IndexReverse_range: "IndexReverse key \<in> {IndexAuto, IndexDirect, IndexReversed}"
  by (simp add: IndexReverse_def IndexAuto_def)

lemma checkReverses_loop_range:
  "conf \<in> {IndexAuto, IndexDirect, IndexReversed} \<Longrightarrow>
   checkReverses_loop rules conf q \<in> {IndexAuto, IndexDirect, IndexReversed}"
  using IndexReverse_range by (induction rules) auto

lemma checkReverses_range:
  "conf_ok idx \<Longrightarrow> checkReverses idx q \<in> {IndexAuto, IndexDirect, IndexReversed}"
  unfolding conf_ok_def checkReverses_def by (rule checkReverses_loop_range)

lemma has_wildcard_iff: "has_wildcard wild s \<longleftrightarrow> (\<exists>c\<in>set s. c \<in> set wild)"
  by (simp add: has_wildcard_def list_ex_iff)

lemma IndexAny_ge: "- 1 \<le> IndexAny s chars"
  by (induction s) (auto simp: Let_def)

lemma IndexAny_none: "IndexAny s chars = -1 \<longleftrightarrow> \<not> has_wildcard chars s"
proof (induction s)
  case Nil
  then show ?case by (simp add: has_wildcard_iff)
next
  case (Cons a s)
  have "IndexAny s chars + 1 \<noteq> - 1" using IndexAny_ge [of s chars] by arith
  with Cons show ?case by (auto simp: has_wildcard_iff Let_def)
qed

lemma IndexAny_first:
  "\<not> has_wildcard chars pre \<Longrightarrow> c \<in> set chars \<Longrightarrow> IndexAny (pre @ c # post) chars = int (length pre)"
  by (induction pre) (auto simp: has_wildcard_iff Let_def)

lemma LastIndexAny_from_last:
  "\<not> has_wildcard chars post \<Longrightarrow> c \<in> set chars \<Longrightarrow> j \<le> length post \<Longrightarrow>
   LastIndexAny_from (pre @ c # post) chars (Suc (length pre) + j) = int (length pre)"
proof (induction j)
  case 0
  then show ?case by simp
next
  case (Suc j)
  then have "post ! j \<in> set post" by simp
  with Suc.prems have "post ! j \<notin> set chars" by (auto simp: has_wildcard_iff)
  moreover have "(pre @ c # post) ! (Suc (length pre) + j) = post ! j"
    by (simp add: nth_append)
  ultimately show ?case using Suc by simp
qed

lemma LastIndexAny_last:
  "\<not> has_wildcard chars post \<Longrightarrow> c \<in> set chars \<Longrightarrow>
   LastIndexAny (pre @ c # post) chars = int (length pre)"
  using LastIndexAny_from_last [of chars post c "length post" pre]
  by (simp add: LastIndexAny_def)

lemma first_wildcard_split:
  "has_wildcard wild s \<Longrightarrow> \<exists>pre c post. s = pre @ c # post \<and> c \<in> set wild \<and> \<not> has_wildcard wild pre"
  unfolding has_wildcard_iff using split_list_first_prop [of s "\<lambda>c. c \<in> set wild"] by blast

lemma last_wildcard_split:
  "has_wildcard wild s \<Longrightarrow> \<exists>pre c post. s = pre @ c # post \<and> c \<in> set wild \<and> \<not> has_wildcard wild post"
  unfolding has_wildcard_iff using split_list_last_prop [of s "\<lambda>c. c \<in> set wild"] by blast

section \<open>Segments and wildcard depths\<close>

lemma Split_nonempty: "Split s sep \<noteq> []"
  by (induction s) (auto split: list.splits)

lemma length_Split: "length (Split s sep) = Count s sep + 1"
  by (induction s) (auto simp: Count_def Split_nonempty split: list.splits)

lemma Split_Cons_other:
  "c \<noteq> sep \<Longrightarrow> Split (c # s) sep = (c # hd (Split s sep)) # tl (Split s sep)"
  using Split_nonempty [of s sep] by (cases "Split s sep") auto

lemma has_wildcard_Cons: "has_wildcard wild (c # s) \<longleftrightarrow> c \<in> set wild \<or> has_wildcard wild s"
  by (simp add: has_wildcard_def)

lemma has_wildcard_Nil: "\<not> has_wildcard wild []"
  by (simp add: has_wildcard_def)

lemma segments_wildcard:
  "sep \<notin> set wild \<Longrightarrow>
   (\<exists>seg\<in>set (Split s sep). has_wildcard wild seg) \<longleftrightarrow> has_wildcard wild s"
proof (induction s)
  case Nil
  then show ?case by (simp add: has_wildcard_Nil)
next
  case (Cons c s)
  show ?case
  proof (cases "c = sep")
    case True
    with Cons show ?thesis by (auto simp: has_wildcard_Cons has_wildcard_Nil)
  next
    case False
    obtain r rs where rs: "Split s sep = r # rs"
      using Split_nonempty [of s sep] by (cases "Split s sep") auto
    with False Cons show ?thesis by (auto simp: has_wildcard_Cons)
  qed
qed

lemma first_depth:
  "sep \<notin> set wild \<Longrightarrow> \<not> has_wildcard wild pre \<Longrightarrow> c \<in> set wild \<Longrightarrow>
   length (takeWhile (\<lambda>seg. \<not> has_wildcard wild seg) (Split (pre @ c # post) sep)) = Count pre sep"
proof (induction pre)
  case Nil
  then have "c \<noteq> sep" by auto
  then show ?case using Nil
    by (simp add: Split_Cons_other has_wildcard_Cons Count_def del: Split.simps)
next
  case (Cons x pre)
  then have IH: "length (takeWhile (\<lambda>seg. \<not> has_wildcard wild seg) (Split (pre @ c # post) sep)) = Count pre sep"
    by (simp add: has_wildcard_Cons)
  from Cons.prems have x: "x \<notin> set wild" by (simp add: has_wildcard_Cons)
  obtain r rs where rs: "Split (pre @ c # post) sep = r # rs"
    using Split_nonempty [of "pre @ c # post" sep] by (cases "Split (pre @ c # post) sep") auto
  show ?case
  proof (cases "x = sep")
    case True
    then show ?thesis using IH by (simp add: has_wildcard_Nil Count_def)
  next
    case False
    then show ?thesis using IH rs x
      by (auto simp: has_wildcard_Cons Count_def split: if_splits)
  qed
qed

lemma takeWhile_rev_last_cong:
  "P a = P b \<Longrightarrow> length (takeWhile P (xs @ [a])) = length (takeWhile P (xs @ [b]))"
  by (induction xs) auto

lemma last_depth:
  "sep \<notin> set wild \<Longrightarrow> \<not> has_wildcard wild post \<Longrightarrow> c \<in> set wild \<Longrightarrow>
   length (takeWhile (\<lambda>seg. \<not> has_wildcard wild seg) (rev (Split (pre @ c # post) sep))) = Count post sep"
proof (induction pre)
  case Nil
  then have c: "c \<noteq> sep" by auto
  obtain r rs where rs: "Split post sep = r # rs"
    using Split_nonempty [of post sep] by (cases "Split post sep") auto
  have "\<not> (\<exists>seg\<in>set (Split post sep). has_wildcard wild seg)"
    using Nil segments_wildcard [of sep wild post] by simp
  then have "\<forall>seg\<in>set (rev rs). \<not> has_wildcard wild seg" using rs by simp
  then have "takeWhile (\<lambda>seg. \<not> has_wildcard wild seg) (rev rs @ [c # r]) = rev rs"
    using Nil.prems(3) by (subst takeWhile_append2) (auto simp: has_wildcard_Cons)
  moreover have "length rs = Count post sep"
    using length_Split [of post sep] rs by simp
  ultimately show ?case using c rs by simp
next
  case (Cons x pre)
  let ?P = "\<lambda>seg. \<not> has_wildcard wild seg"
  let ?S = "Split (pre @ c # post) sep"
  from Cons have IH: "length (takeWhile ?P (rev ?S)) = Count post sep" by simp
  have "has_wildcard wild (pre @ c # post)"
    using Cons.prems(3) by (auto simp: has_wildcard_iff)
  then have ex: "\<exists>seg\<in>set ?S. has_wildcard wild seg"
    using segments_wildcard [of sep wild "pre @ c # post"] Cons.prems(1) by simp
  obtain r rs where rs: "?S = r # rs"
    using Split_nonempty [of "pre @ c # post" sep] by (cases ?S) auto
  show ?case
  proof (cases "x = sep")
    case True
    from ex obtain seg where "seg \<in> set (rev ?S)" "\<not> ?P seg" by auto
    then have "takeWhile ?P (rev ?S @ [[]]) = takeWhile ?P (rev ?S)"
      by (rule takeWhile_append1)
    then show ?thesis using True IH by simp
  next
    case False
    have "length (takeWhile ?P (rev rs @ [x # r])) = length (takeWhile ?P (rev rs @ [r]))"
    proof (cases "\<exists>seg\<in>set rs. has_wildcard wild seg")
      case True
      then obtain seg where "seg \<in> set (rev rs)" "\<not> ?P seg" by auto
      then show ?thesis by simp
    next
      case False
      with ex rs have "has_wildcard wild r" by auto
      then have "?P (x # r) = ?P r" by (simp add: has_wildcard_Cons)
      then show ?thesis by (rule takeWhile_rev_last_cong)
    qed
    then show ?thesis using False IH rs by simp
  qed
qed

lemma first_depth_code:
  assumes "CHR ''.'' \<notin> set wild" "has_wildcard wild q"
  shows "\<exists>p. slice_to q (IndexWildcard wild q) = Some p \<and> Count p CHR ''.'' = firstWildcardDepth wild q"
proof -
  obtain pre c post where q: "q = pre @ c # post" "c \<in> set wild" "\<not> has_wildcard wild pre"
    using first_wildcard_split [OF assms(2)] by blast
  then have "IndexWildcard wild q = int (length pre)"
    by (simp add: IndexWildcard_def IndexAny_first)
  then show ?thesis
    using q first_depth [OF assms(1) q(3) q(2), of post]
    by (simp add: slice_to_def firstWildcardDepth_def)
qed

lemma last_depth_code:
  assumes "CHR ''.'' \<notin> set wild" "has_wildcard wild q"
  shows "\<exists>s. slice_from q (IndexLastWildcard wild q) = Some s \<and> Count s CHR ''.'' = lastWildcardDepth wild q"
proof -
  obtain pre c post where q: "q = pre @ c # post" "c \<in> set wild" "\<not> has_wildcard wild post"
    using last_wildcard_split [OF assms(2)] by blast
  then have "IndexLastWildcard wild q = int (length pre)"
    by (simp add: IndexLastWildcard_def LastIndexAny_last)
  moreover have "c \<noteq> CHR ''.''" using q(2) assms(1) by auto
  ultimately show ?thesis
    using q last_depth [OF assms(1) q(3) q(2), of pre]
    by (simp add: slice_from_def lastWildcardDepth_def Count_def)
qed

lemma slices_defined:
  assumes "has_wildcard wild q"
  shows "\<exists>p s. slice_to q (IndexWildcard wild q) = Some p \<and> slice_from q (IndexLastWildcard wild q) = Some s"
proof -
  obtain pre c post where q: "q = pre @ c # post" "c \<in> set wild" "\<not> has_wildcard wild pre"
    using first_wildcard_split [OF assms] by blast
  obtain pre' c' post' where q': "q = pre' @ c' # post'" "c' \<in> set wild" "\<not> has_wildcard wild post'"
    using last_wildcard_split [OF assms] by blast
  have "IndexWildcard wild q = int (length pre)"
    using q by (simp add: IndexWildcard_def IndexAny_first)
  moreover have "IndexLastWildcard wild q = int (length pre')"
    using q' by (simp add: IndexLastWildcard_def LastIndexAny_last)
  moreover have "length q = length pre + 1 + length post" using q(1) by simp
  moreover have "length q = length pre' + 1 + length post'" using q'(1) by simp
  ultimately show ?thesis by (simp add: slice_to_def slice_from_def)
qed

section \<open>Resolution of the direction\<close>

lemma useReverse_step:
  assumes "reverse idx \<noteq> IndexDirect" "reverse idx \<noteq> IndexReversed"
  shows "useReverse wild idx q =
     (if checkReverses idx q \<noteq> IndexAuto
        then useReverse wild (idx\<lparr>reverse := checkReverses idx q\<rparr>) q
      else if IndexWildcard wild q = -1
        then useReverse wild (idx\<lparr>reverse := IndexDirect\<rparr>) q
      else case slice_to q (IndexWildcard wild q) of None \<Rightarrow> None
        | Some p \<Rightarrow> (case slice_from q (IndexLastWildcard wild q) of None \<Rightarrow> None
          | Some s \<Rightarrow>
              if Count p CHR ''.'' < Count s CHR ''.''
                then useReverse wild (idx\<lparr>reverse := IndexReversed\<rparr>) q
                else useReverse wild (idx\<lparr>reverse := IndexDirect\<rparr>) q))"
  using assms
  by (subst useReverse.simps) (simp add: query_defs Let_def split: option.splits)

lemma useReverse_forced:
  assumes "reverse idx \<noteq> IndexDirect" "reverse idx \<noteq> IndexReversed"
    and "checkReverses idx q = d" "d = IndexDirect \<or> d = IndexReversed"
  shows "useReverse wild idx q = Some (d = IndexReversed, idx\<lparr>reverse := d\<rparr>)"
  using assms(3,4) useReverse_set [of d wild idx q]
  by (subst useReverse_step [OF assms(1,2)]) (auto simp: codes_distinct)

lemma useReverse_literal:
  assumes "reverse idx \<noteq> IndexDirect" "reverse idx \<noteq> IndexReversed"
    and "checkReverses idx q = IndexAuto" "\<not> has_wildcard wild q"
  shows "useReverse wild idx q = Some (False, idx\<lparr>reverse := IndexDirect\<rparr>)"
  using assms(3,4) useReverse_set [of IndexDirect wild idx q]
  by (subst useReverse_step [OF assms(1,2)])
     (simp add: IndexWildcard_def IndexAny_none codes_distinct)

lemma useReverse_wildcard:
  assumes "reverse idx \<noteq> IndexDirect" "reverse idx \<noteq> IndexReversed"
    and "checkReverses idx q = IndexAuto" "has_wildcard wild q" "CHR ''.'' \<notin> set wild"
  shows "useReverse wild idx q =
     Some (firstWildcardDepth wild q < lastWildcardDepth wild q,
           idx\<lparr>reverse := if firstWildcardDepth wild q < lastWildcardDepth wild q
                           then IndexReversed else IndexDirect\<rparr>)"
proof -
  obtain p where p: "slice_to q (IndexWildcard wild q) = Some p"
      "Count p CHR ''.'' = firstWildcardDepth wild q"
    using first_depth_code [OF assms(5,4)] by blast
  obtain s where s: "slice_from q (IndexLastWildcard wild q) = Some s"
      "Count s CHR ''.'' = lastWildcardDepth wild q"
    using last_depth_code [OF assms(5,4)] by blast
  have w: "IndexWildcard wild q \<noteq> -1"
    using assms(4) by (simp add: IndexWildcard_def IndexAny_none)
  show ?thesis
    using assms(3) w p s useReverse_set [of IndexDirect wild idx q]
      useReverse_set [of IndexReversed wild idx q]
    by (subst useReverse_step [OF assms(1,2)]) (simp add: codes_distinct)
qed

lemma useReverse_heuristic:
  assumes "reverse idx \<noteq> IndexDirect" "reverse idx \<noteq> IndexReversed"
    and "checkReverses idx q = IndexAuto" "CHR ''.'' \<notin> set wild"
  shows "useReverse wild idx q =
     Some (heuristic wild q = IndexReversed, idx\<lparr>reverse := heuristic wild q\<rparr>)"
proof (cases "has_wildcard wild q")
  case True
  then show ?thesis
    using useReverse_wildcard [OF assms(1,2,3) True assms(4)]
    by (simp add: heuristic_def codes_distinct)
next
  case False
  then show ?thesis
    using useReverse_literal [OF assms(1,2,3) False]
    by (simp add: heuristic_def codes_distinct)
qed

lemma useReverse_total:
  assumes "conf_ok idx"
  shows "\<exists>r. useReverse wild idx q = Some (r, idx\<lparr>reverse := if r then IndexReversed else IndexDirect\<rparr>)"
proof -
  consider (d) "reverse idx = IndexDirect" | (r) "reverse idx = IndexReversed"
    | (u) "reverse idx \<noteq> IndexDirect" "reverse idx \<noteq> IndexReversed" by blast
  then show ?thesis
  proof cases
    case d
    have "idx\<lparr>reverse := IndexDirect\<rparr> = idx" using d by simp
    then show ?thesis using useReverse_Direct [OF d, of wild q] by (intro exI [of _ False]) simp
  next
    case r
    have "idx\<lparr>reverse := IndexReversed\<rparr> = idx" using r by simp
    then show ?thesis using useReverse_Reversed [OF r, of wild q] by (intro exI [of _ True]) simp
  next
    case u
    consider (forced) "checkReverses idx q = IndexDirect \<or> checkReverses idx q = IndexReversed"
      | (auto) "checkReverses idx q = IndexAuto"
      using checkReverses_range [OF assms, of q] by auto
    then show ?thesis
    proof cases
      case forced
      show ?thesis
        using useReverse_forced [OF u refl forced, of wild] forced
        by (auto simp: codes_distinct)
    next
      case auto
      show ?thesis
      proof (cases "has_wildcard wild q")
        case False
        then show ?thesis using useReverse_literal [OF u auto False] by (intro exI [of _ False]) simp
      next
        case True
        obtain p s where ps: "slice_to q (IndexWildcard wild q) = Some p"
            "slice_from q (IndexLastWildcard wild q) = Some s"
          using slices_defined [OF True] by blast
        have w: "IndexWildcard wild q \<noteq> -1"
          using True by (simp add: IndexWildcard_def IndexAny_none)
        show ?thesis
        proof (cases "Count p CHR ''.'' < Count s CHR ''.''")
          case True
          then have "useReverse wild idx q = Some (True, idx\<lparr>reverse := IndexReversed\<rparr>)"
            using auto w ps useReverse_set [of IndexReversed wild idx q]
            by (subst useReverse_step [OF u]) (simp add: codes_distinct)
          then show ?thesis by (intro exI [of _ True]) simp
        next
          case False
          then have "useReverse wild idx q = Some (False, idx\<lparr>reverse := IndexDirect\<rparr>)"
            using auto w ps useReverse_set [of IndexDirect wild idx q]
            by (subst useReverse_step [OF u]) (simp add: codes_distinct)
          then show ?thesis by (intro exI [of _ False]) simp
        qed
      qed
    qed
  qed
qed

lemma HasPrefix_iff: "HasPrefix s p \<longleftrightarrow> prefix p s"
  by (auto simp: HasPrefix_def prefix_def take_is_prefix) (metis append_eq_conv_conj)

lemma HasSuffix_iff: "HasSuffix s p \<longleftrightarrow> suffix p s"
  by (auto simp: HasSuffix_def suffix_def) (metis append_take_drop_id)

lemma checkReverses_loop_Cons:
  "checkReverses_loop (rule # rules) conf q =
     (if rule_matches rule q then IndexReverse (Reverse rule) else checkReverses_loop rules conf q)"
  by (auto simp: rule_matches_def HasPrefix_iff HasSuffix_iff split: option.splits)

lemma checkReverses_loop_no_match:
  "\<forall>rule\<in>set rules. \<not> rule_matches rule q \<Longrightarrow> checkReverses_loop rules conf q = conf"
  by (induction rules) (simp_all add: checkReverses_loop_Cons del: checkReverses_loop.simps(2))

lemma checkReverses_loop_first_match:
  "\<forall>rule\<in>set pre. \<not> rule_matches rule q \<Longrightarrow> rule_matches rule q \<Longrightarrow>
   checkReverses_loop (pre @ rule # post) conf q = IndexReverse (Reverse rule)"
  by (induction pre) (simp_all add: checkReverses_loop_Cons del: checkReverses_loop.simps(2))

section \<open>The compaction loop is a filter\<close>

lemma makeList_loop_inv:
  "skip \<le> i \<Longrightarrow> i \<le> length rows \<Longrightarrow>
   \<exists>rows' skip'. makeList_loop onlySeries rows skip i = Some (rows', skip') \<and>
     length rows' = length rows \<and> skip' \<le> length rows \<and>
     length rows - skip' = (i - skip) + length (filter (retained onlySeries) (drop i rows)) \<and>
     take (length rows - skip') rows' = take (i - skip) rows @ filter (retained onlySeries) (drop i rows)"
proof (induction onlySeries rows skip i rule: makeList_loop.induct)
  case (1 onlySeries rows skip i)
  show ?case
  proof (cases "i < length rows")
    case False
    with "1.prems" have "i = length rows" by simp
    then show ?thesis using "1.prems" by (subst makeList_loop.simps) simp
  next
    case True
    note i = True
    have dr: "drop i rows = rows ! i # drop (Suc i) rows"
      using i by (simp add: Cons_nth_drop_Suc)
    show ?thesis
    proof (cases "retained onlySeries (rows ! i)")
      case False
      then have br: "length (rows ! i) = 0 \<or> (length (rows ! i) \<noteq> 0 \<and> onlySeries \<and> last (rows ! i) = CHR ''.'')"
        by (auto simp: retained_def)
      have call: "makeList_loop onlySeries rows skip i = makeList_loop onlySeries rows (skip + 1) (i + 1)"
        using i br by (subst makeList_loop.simps) auto
      have "\<exists>rows' skip'. makeList_loop onlySeries rows (skip + 1) (i + 1) = Some (rows', skip') \<and>
          length rows' = length rows \<and> skip' \<le> length rows \<and>
          length rows - skip' = (i + 1 - (skip + 1)) + length (filter (retained onlySeries) (drop (i + 1) rows)) \<and>
          take (length rows - skip') rows' = take (i + 1 - (skip + 1)) rows @ filter (retained onlySeries) (drop (i + 1) rows)"
        using br
      proof
        assume e: "length (rows ! i) = 0"
        show ?thesis using "1.IH"(1) [OF i e] "1.prems" i by simp
      next
        assume e: "length (rows ! i) \<noteq> 0 \<and> onlySeries \<and> last (rows ! i) = CHR ''.''"
        show ?thesis using "1.IH"(2) [OF i] e "1.prems" i by simp
      qed
      then show ?thesis using call dr False by simp
    next
      case True
      then have ne: "length (rows ! i) \<noteq> 0" and nd: "\<not> (onlySeries \<and> last (rows ! i) = CHR ''.'')"
        by (auto simp: retained_def)
      show ?thesis
      proof (cases "skip > 0")
        case False
        then have call: "makeList_loop onlySeries rows skip i = makeList_loop onlySeries rows skip (i + 1)"
          using i ne nd by (subst makeList_loop.simps) auto
        have "\<exists>rows' skip'. makeList_loop onlySeries rows skip (i + 1) = Some (rows', skip') \<and>
          length rows' = length rows \<and> skip' \<le> length rows \<and>
          length rows - skip' = (i + 1 - skip) + length (filter (retained onlySeries) (drop (i + 1) rows)) \<and>
          take (length rows - skip') rows' = take (i + 1 - skip) rows @ filter (retained onlySeries) (drop (i + 1) rows)"
          using "1.IH"(4) [OF i ne nd False] "1.prems" i by simp
        then show ?thesis using call dr True False i by (simp add: take_Suc_conv_app_nth)
      next
        case sk: True
        let ?rows2 = "rows[i - skip := rows ! i]"
        have call: "makeList_loop onlySeries rows skip i = makeList_loop onlySeries ?rows2 skip (i + 1)"
          using i ne nd sk "1.prems" by (subst makeList_loop.simps) auto
        have "\<exists>rows' skip'. makeList_loop onlySeries ?rows2 skip (i + 1) = Some (rows', skip') \<and>
          length rows' = length ?rows2 \<and> skip' \<le> length ?rows2 \<and>
          length ?rows2 - skip' = (i + 1 - skip) + length (filter (retained onlySeries) (drop (i + 1) ?rows2)) \<and>
          take (length ?rows2 - skip') rows' = take (i + 1 - skip) ?rows2 @ filter (retained onlySeries) (drop (i + 1) ?rows2)"
          using "1.IH"(3) [OF i ne nd sk] "1.prems" i by simp
        moreover have "drop (i + 1) ?rows2 = drop (i + 1) rows" by simp
        moreover have "take (i + 1 - skip) ?rows2 = take (i - skip) rows @ [rows ! i]"
        proof -
          have "i + 1 - skip = Suc (i - skip)" using "1.prems" by simp
          moreover have "i - skip < length ?rows2" using i by simp
          ultimately show ?thesis by (simp add: take_Suc_conv_app_nth)
        qed
        ultimately show ?thesis using call dr True "1.prems" by (auto simp: Suc_diff_le)
      qed
    qed
  qed
qed

lemma makeList_loop_filter:
  "\<exists>rows' skip'. makeList_loop onlySeries rows 0 0 = Some (rows', skip') \<and>
     skip' \<le> length rows' \<and> take (length rows' - skip') rows' = filter (retained onlySeries) rows"
  using makeList_loop_inv [of 0 0 rows onlySeries] by auto

lemma makeList_eq:
  "makeList wild idx onlySeries =
     (case body idx of
        NilSlice \<Rightarrow> Some (Slice [], idx)
      | Slice b \<Rightarrow>
          (case useReverse wild idx [] of None \<Rightarrow> None
           | Some (r, idx') \<Rightarrow>
               Some (Slice (map (if r then ReverseBytes else id)
                             (filter (retained onlySeries) (Split b (CHR 0x0A)))), idx')))"
proof (cases "body idx")
  case NilSlice
  then show ?thesis by (simp add: makeList_def)
next
  case (Slice b)
  obtain rows' skip' where l: "makeList_loop onlySeries (Split b (CHR 0x0A)) 0 0 = Some (rows', skip')"
      "skip' \<le> length rows'"
      "take (length rows' - skip') rows' = filter (retained onlySeries) (Split b (CHR 0x0A))"
    using makeList_loop_filter [of onlySeries "Split b (CHR 0x0A)"] by blast
  show ?thesis using Slice l
    by (auto simp: makeList_def split: option.splits prod.splits)
qed

section \<open>The statement built by Execute\<close>

lemma NewIndex_conf_ok: "conf_ok (NewIndex u t d rv rules os)"
  using IndexReverse_range [of rv] by (simp add: conf_ok_def NewIndex_def)

lemma useReverse_cached:
  "reverse idx = (if r then IndexReversed else IndexDirect) \<Longrightarrow> useReverse wild idx q = Some (r, idx)"
  by (cases r) (simp_all add: useReverse_Direct useReverse_Reversed)

lemma Execute_eq:
  assumes "useReverse wild idx q = Some (r, idx1)"
    and "reverse idx1 = (if r then IndexReversed else IndexDirect)"
  shows "Execute wild unixFormat Query idx q from until =
    (case Query (table idx1) (url idx1)
       (SelectPath (table idx1)
         [Eq ''Level'' (IntArg (int (Count (if r then ReverseString q else q) CHR ''.'') + 1 +
            levelOffset_table r (dailyEnabled idx1 \<and> from > 0 \<and> until > 0))),
          TreeGlob ''Path'' (if r then ReverseString q else q),
          if dailyEnabled idx1 \<and> from > 0 \<and> until > 0
          then Fmt (''Date >='%s' AND Date <= '%s'' @ [CHR 0x27])
                 [unixFormat from ''2006-01-02'', unixFormat until ''2006-01-02'']
          else Eq ''Date'' (StrArg ''1970-02-12'')])
       (opts idx1)
     of (b, err) \<Rightarrow>
       Some (err, idx1\<lparr>useDaily := (dailyEnabled idx1 \<and> from > 0 \<and> until > 0), body := b\<rparr>))"
proof -
  let ?d = "dailyEnabled idx1 \<and> from > 0 \<and> until > 0"
  have c: "useReverse wild (idx1\<lparr>useDaily := x\<rparr>) q = Some (r, idx1\<lparr>useDaily := x\<rparr>)" for x
    using assms(2) by (intro useReverse_cached) simp
  show ?thesis
    unfolding Execute_def
    using assms(1) c [of True] c [of False]
    by (simp add: Let_def idx_where_def New_def And_def Andf_def levelOffset_table_def
          ReverseLevelOffset_def TreeLevelOffset_def ReverseTreeLevelOffset_def DefaultTreeDate_def
          split: prod.splits)
qed

lemma Execute_total:
  assumes "conf_ok idx"
  shows "\<exists>r. useReverse wild idx q = Some (r, idx\<lparr>reverse := if r then IndexReversed else IndexDirect\<rparr>) \<and>
    Execute wild unixFormat Query idx q from until =
    (case Query (table idx) (url idx)
       (SelectPath (table idx)
         [Eq ''Level'' (IntArg (int (Count (if r then ReverseString q else q) CHR ''.'') + 1 +
            levelOffset_table r (dailyEnabled idx \<and> from > 0 \<and> until > 0))),
          TreeGlob ''Path'' (if r then ReverseString q else q),
          if dailyEnabled idx \<and> from > 0 \<and> until > 0
          then Fmt (''Date >='%s' AND Date <= '%s'' @ [CHR 0x27])
                 [unixFormat from ''2006-01-02'', unixFormat until ''2006-01-02'']
          else Eq ''Date'' (StrArg ''1970-02-12'')])
       (opts idx)
     of (b, err) \<Rightarrow>
       Some (err, idx\<lparr>reverse := if r then IndexReversed else IndexDirect,
                      useDaily := (dailyEnabled idx \<and> from > 0 \<and> until > 0), body := b\<rparr>))"
proof -
  obtain r where r: "useReverse wild idx q = Some (r, idx\<lparr>reverse := if r then IndexReversed else IndexDirect\<rparr>)"
    using useReverse_total [OF assms] by blast
  have "reverse (idx\<lparr>reverse := if r then IndexReversed else IndexDirect\<rparr>) = (if r then IndexReversed else IndexDirect)"
    by simp
  from Execute_eq [OF r this, of unixFormat Query "from" until] r
  show ?thesis by (intro exI [of _ r]) simp
qed

lemma Count_rev: "Count (rev xs) sep = Count xs sep"
  by (simp add: Count_def flip: rev_filter)

lemma Count_append: "Count (xs @ ys) sep = Count xs sep + Count ys sep"
  by (simp add: Count_def)

lemma Count_ReverseBytes: "Count (ReverseBytes q) sep = Count q sep"
proof (cases "q \<noteq> [] \<and> last q = CHR ''.''")
  case True
  then have "q = butlast q @ ''.''" by (metis append_butlast_last_id)
  then have "Count q sep = Count (butlast q) sep + Count ''.'' sep"
    by (metis Count_append)
  then show ?thesis using True by (simp add: ReverseBytes_def Count_append Count_rev)
next
  case False
  then show ?thesis by (auto simp: ReverseBytes_def Count_rev)
qed

lemma Count_ReverseString: "Count (ReverseString q) sep = Count q sep"
  by (simp add: ReverseString_def Count_ReverseBytes)


section \<open>The decoder on a resolved finder\<close>

lemma makeList_resolved:
  assumes "reverse idx = (if r then IndexReversed else IndexDirect)"
  shows "makeList wild idx onlySeries =
     Some (case body idx of
             NilSlice \<Rightarrow> Slice []
           | Slice b \<Rightarrow> Slice (map (if r then ReverseBytes else id)
                                (filter (retained onlySeries) (Split b (CHR 0x0A)))),
           idx)"
  using useReverse_cached [OF assms, of wild "[]"]
  by (simp add: makeList_eq split: slice.splits)

lemma makeList_total:
  assumes "conf_ok idx"
  shows "\<exists>rows idx1. makeList wild idx onlySeries = Some (Slice rows, idx1) \<and>
     (body idx = NilSlice \<or> body idx = Slice [] \<longrightarrow> rows = [])"
proof (cases "body idx")
  case NilSlice
  then show ?thesis by (simp add: makeList_eq)
next
  case (Slice b)
  obtain r where "useReverse wild idx [] = Some (r, idx\<lparr>reverse := if r then IndexReversed else IndexDirect\<rparr>)"
    using useReverse_total [OF assms] by blast
  then show ?thesis using Slice by (auto simp: makeList_eq retained_def)
qed

lemma decode_calls_resolved:
  assumes "reverse idx = (if r then IndexReversed else IndexDirect)"
  shows "decode_calls wild idx calls =
     Some (map (\<lambda>c. fst (the (makeList wild idx c))) calls, idx)"
  by (induction calls) (simp_all add: makeList_resolved [OF assms])


lemma conf_ok_preserved:
  assumes "conf_ok idx"
  shows "useReverse wild idx q = Some (r, idx1) \<Longrightarrow> conf_ok idx1"
    and "Execute wild unixFormat Query idx q from until = Some (err, idx2) \<Longrightarrow> conf_ok idx2"
    and "makeList wild idx onlySeries = Some (rows, idx3) \<Longrightarrow> conf_ok idx3"
proof -
  obtain r' where r': "useReverse wild idx q =
      Some (r', idx\<lparr>reverse := if r' then IndexReversed else IndexDirect\<rparr>)"
    using useReverse_total [OF assms] by blast
  show "useReverse wild idx q = Some (r, idx1) \<Longrightarrow> conf_ok idx1"
    using assms r' by (auto simp: conf_ok_def)
  show "conf_ok idx2" if "Execute wild unixFormat Query idx q from until = Some (err, idx2)"
  proof -
    have "confReverse idx2 = confReverse idx"
      using that Execute_total [OF assms, of wild q unixFormat Query "from" until]
      by (auto simp: prod.case_eq_if)
    then show ?thesis using assms by (simp add: conf_ok_def)
  qed
  obtain r'' where "useReverse wild idx [] =
      Some (r'', idx\<lparr>reverse := if r'' then IndexReversed else IndexDirect\<rparr>)"
    using useReverse_total [OF assms] by blast
  then show "makeList wild idx onlySeries = Some (rows, idx3) \<Longrightarrow> conf_ok idx3"
    using assms by (auto simp: makeList_eq conf_ok_def split: slice.splits)
qed

section \<open>The claims\<close>

text \<open>
  C2. With the direction unresolved, Auto configured and no reverse rule matching, a
  pattern that holds a wildcard resolves to Reversed if and only if the number of
  separators before its first wildcard segment is less than the number of separators from
  its last wildcard segment to the end, and to Forward otherwise. The separator is not
  itself a wildcard character.
\<close>

theorem heuristic_reversed_iff:
  assumes "confReverse idx = IndexAuto" and "reverse idx = IndexAuto"
    and "\<forall>rule\<in>set (confReverses idx). \<not> rule_matches rule pattern"
    and "has_wildcard wild pattern" and "CHR ''.'' \<notin> set wild"
  shows "useReverse wild idx pattern =
     Some (firstWildcardDepth wild pattern < lastWildcardDepth wild pattern,
           idx\<lparr>reverse := if firstWildcardDepth wild pattern < lastWildcardDepth wild pattern
                           then IndexReversed else IndexDirect\<rparr>)"
proof -
  have "checkReverses idx pattern = IndexAuto"
    using assms(1,3) by (simp add: checkReverses_def checkReverses_loop_no_match)
  moreover have "reverse idx \<noteq> IndexDirect" "reverse idx \<noteq> IndexReversed"
    using assms(2) by (simp_all add: codes_distinct)
  ultimately show ?thesis using assms(4,5) by (simp add: useReverse_wildcard)
qed

theorem heuristic_reversed_iff_witness:
  "confReverse (NewIndex ''u'' ''t'' False ''auto''
      [\<lparr>Suffix = ''.x'', Prefix = [], Regex = None, Reverse = ''reversed''\<rparr>] ()) = IndexAuto \<and>
   reverse (NewIndex ''u'' ''t'' False ''auto''
      [\<lparr>Suffix = ''.x'', Prefix = [], Regex = None, Reverse = ''reversed''\<rparr>] ()) = IndexAuto \<and>
   \<not> rule_matches \<lparr>Suffix = ''.x'', Prefix = [], Regex = None, Reverse = ''reversed''\<rparr> ''*.b.c.d'' \<and>
   \<not> rule_matches \<lparr>Suffix = ''.x'', Prefix = [], Regex = None, Reverse = ''reversed''\<rparr> ''a.b.c.*'' \<and>
   has_wildcard ''*'' ''*.b.c.d'' \<and> has_wildcard ''*'' ''a.b.c.*'' \<and> CHR ''.'' \<notin> set ''*'' \<and>
   firstWildcardDepth ''*'' ''*.b.c.d'' = 0 \<and> lastWildcardDepth ''*'' ''*.b.c.d'' = 3 \<and>
   firstWildcardDepth ''*'' ''a.b.c.*'' = 3 \<and> lastWildcardDepth ''*'' ''a.b.c.*'' = 0 \<and>
   useReverse ''*'' (NewIndex ''u'' ''t'' False ''auto''
      [\<lparr>Suffix = ''.x'', Prefix = [], Regex = None, Reverse = ''reversed''\<rparr>] ()) ''*.b.c.d'' =
     Some (True, (NewIndex ''u'' ''t'' False ''auto''
      [\<lparr>Suffix = ''.x'', Prefix = [], Regex = None, Reverse = ''reversed''\<rparr>] ())\<lparr>reverse := IndexReversed\<rparr>) \<and>
   useReverse ''*'' (NewIndex ''u'' ''t'' False ''auto''
      [\<lparr>Suffix = ''.x'', Prefix = [], Regex = None, Reverse = ''reversed''\<rparr>] ()) ''a.b.c.*'' =
     Some (False, (NewIndex ''u'' ''t'' False ''auto''
      [\<lparr>Suffix = ''.x'', Prefix = [], Regex = None, Reverse = ''reversed''\<rparr>] ())\<lparr>reverse := IndexDirect\<rparr>)"
proof -
  let ?rule = "\<lparr>Suffix = ''.x'', Prefix = [], Regex = None, Reverse = ''reversed''\<rparr>"
  let ?I = "NewIndex ''u'' ''t'' False ''auto'' [?rule] ()"
  have h: "confReverse ?I = IndexAuto" "reverse ?I = IndexAuto"
    by (simp_all add: NewIndex_def IndexReverse_def IndexAuto_def)
  have m: "\<not> rule_matches ?rule ''*.b.c.d''" "\<not> rule_matches ?rule ''a.b.c.*''"
    by (simp_all add: rule_matches_def suffix_def)
  have m1: "\<forall>rule\<in>set (confReverses ?I). \<not> rule_matches rule ''*.b.c.d''"
    and m2: "\<forall>rule\<in>set (confReverses ?I). \<not> rule_matches rule ''a.b.c.*''"
    using m by (simp_all add: NewIndex_def)
  have w: "has_wildcard ''*'' ''*.b.c.d''" "has_wildcard ''*'' ''a.b.c.*''" "CHR ''.'' \<notin> set ''*''"
    by (simp_all add: has_wildcard_def)
  have d: "firstWildcardDepth ''*'' ''*.b.c.d'' = 0" "lastWildcardDepth ''*'' ''*.b.c.d'' = 3"
    "firstWildcardDepth ''*'' ''a.b.c.*'' = 3" "lastWildcardDepth ''*'' ''a.b.c.*'' = 0"
    by (simp_all add: firstWildcardDepth_def lastWildcardDepth_def has_wildcard_def)
  show ?thesis
    using heuristic_reversed_iff [OF h m1 w(1) w(3)] heuristic_reversed_iff [OF h m2 w(2) w(3)]
      h m w d
    by simp
qed

text \<open>
  C4. With the direction unresolved, Auto configured and no reverse rule matching, a
  pattern without any wildcard character resolves to Forward.
\<close>

theorem literal_goes_forward:
  assumes "confReverse idx = IndexAuto" and "reverse idx = IndexAuto"
    and "\<forall>rule\<in>set (confReverses idx). \<not> rule_matches rule pattern"
    and "\<not> has_wildcard wild pattern"
  shows "useReverse wild idx pattern = Some (False, idx\<lparr>reverse := IndexDirect\<rparr>)"
proof -
  have "checkReverses idx pattern = IndexAuto"
    using assms(1,3) by (simp add: checkReverses_def checkReverses_loop_no_match)
  moreover have "reverse idx \<noteq> IndexDirect" "reverse idx \<noteq> IndexReversed"
    using assms(2) by (simp_all add: codes_distinct)
  ultimately show ?thesis using assms(4) by (simp add: useReverse_literal)
qed

theorem literal_goes_forward_witness:
  "confReverse (NewIndex ''u'' ''t'' False ''auto''
      [\<lparr>Suffix = ''.x'', Prefix = [], Regex = None, Reverse = ''reversed''\<rparr>] ()) = IndexAuto \<and>
   reverse (NewIndex ''u'' ''t'' False ''auto''
      [\<lparr>Suffix = ''.x'', Prefix = [], Regex = None, Reverse = ''reversed''\<rparr>] ()) = IndexAuto \<and>
   \<not> rule_matches \<lparr>Suffix = ''.x'', Prefix = [], Regex = None, Reverse = ''reversed''\<rparr> ''a.b.c'' \<and>
   \<not> has_wildcard ''[]{}*?'' ''a.b.c'' \<and>
   useReverse ''[]{}*?'' (NewIndex ''u'' ''t'' False ''auto''
      [\<lparr>Suffix = ''.x'', Prefix = [], Regex = None, Reverse = ''reversed''\<rparr>] ()) ''a.b.c'' =
     Some (False, (NewIndex ''u'' ''t'' False ''auto''
      [\<lparr>Suffix = ''.x'', Prefix = [], Regex = None, Reverse = ''reversed''\<rparr>] ())\<lparr>reverse := IndexDirect\<rparr>)"
proof -
  let ?rule = "\<lparr>Suffix = ''.x'', Prefix = [], Regex = None, Reverse = ''reversed''\<rparr>"
  let ?I = "NewIndex ''u'' ''t'' False ''auto'' [?rule] ()"
  have h: "confReverse ?I = IndexAuto" "reverse ?I = IndexAuto"
    by (simp_all add: NewIndex_def IndexReverse_def IndexAuto_def)
  have m: "\<not> rule_matches ?rule ''a.b.c''"
    by (simp add: rule_matches_def suffix_def)
  have m1: "\<forall>rule\<in>set (confReverses ?I). \<not> rule_matches rule ''a.b.c''"
    using m by (simp add: NewIndex_def)
  have w: "\<not> has_wildcard ''[]{}*?'' ''a.b.c''"
    by (simp add: has_wildcard_def)
  show ?thesis
    using literal_goes_forward [OF h m1 w] h m w by simp
qed

text \<open>
  C8. With the direction unresolved, the rules are consulted in order and the first rule
  that matches the pattern (non-empty prefix, non-empty suffix, present regular
  expression; absent fields match everything) decides: \<^verbatim>\<open>checkReverses\<close> returns its
  direction, and when that is Forward or Reversed the resolution ends there, whatever the
  wildcard positions and the configured direction, Auto in particular.
\<close>

theorem first_matching_rule_forces:
  assumes "reverse idx = IndexAuto"
    and "confReverses idx = pre @ rule # post"
    and "\<forall>r\<in>set pre. \<not> rule_matches r pattern"
    and "rule_matches rule pattern"
  shows "checkReverses idx pattern = IndexReverse (Reverse rule) \<and>
     (IndexReverse (Reverse rule) \<noteq> IndexAuto \<longrightarrow>
        useReverse wild idx pattern =
          Some (IndexReverse (Reverse rule) = IndexReversed,
                idx\<lparr>reverse := IndexReverse (Reverse rule)\<rparr>))"
proof -
  have c: "checkReverses idx pattern = IndexReverse (Reverse rule)"
    using assms(2,3,4) by (simp add: checkReverses_def checkReverses_loop_first_match)
  have u: "reverse idx \<noteq> IndexDirect" "reverse idx \<noteq> IndexReversed"
    using assms(1) by (simp_all add: codes_distinct)
  have "useReverse wild idx pattern =
      Some (IndexReverse (Reverse rule) = IndexReversed, idx\<lparr>reverse := IndexReverse (Reverse rule)\<rparr>)"
    if "IndexReverse (Reverse rule) \<noteq> IndexAuto"
  proof -
    have "IndexReverse (Reverse rule) = IndexDirect \<or> IndexReverse (Reverse rule) = IndexReversed"
      using that IndexReverse_range [of "Reverse rule"] by auto
    then show ?thesis by (rule useReverse_forced [OF u c])
  qed
  with c show ?thesis by blast
qed

theorem first_matching_rule_forces_witness:
  "reverse (NewIndex ''u'' ''t'' False ''auto''
      [\<lparr>Suffix = [], Prefix = ''x.'', Regex = None, Reverse = ''direct''\<rparr>,
       \<lparr>Suffix = ''.*'', Prefix = ''a.'', Regex = Some (\<lambda>s. length s < 9), Reverse = ''reversed''\<rparr>,
       \<lparr>Suffix = [], Prefix = [], Regex = None, Reverse = ''direct''\<rparr>] ()) = IndexAuto \<and>
   \<not> rule_matches \<lparr>Suffix = [], Prefix = ''x.'', Regex = None, Reverse = ''direct''\<rparr> ''a.b.c.*'' \<and>
   rule_matches \<lparr>Suffix = ''.*'', Prefix = ''a.'', Regex = Some (\<lambda>s. length s < 9), Reverse = ''reversed''\<rparr>
      ''a.b.c.*'' \<and>
   heuristic ''*'' ''a.b.c.*'' = IndexDirect \<and>
   IndexReverse ''reversed'' \<noteq> IndexAuto \<and>
   useReverse ''*'' (NewIndex ''u'' ''t'' False ''auto''
      [\<lparr>Suffix = [], Prefix = ''x.'', Regex = None, Reverse = ''direct''\<rparr>,
       \<lparr>Suffix = ''.*'', Prefix = ''a.'', Regex = Some (\<lambda>s. length s < 9), Reverse = ''reversed''\<rparr>,
       \<lparr>Suffix = [], Prefix = [], Regex = None, Reverse = ''direct''\<rparr>] ()) ''a.b.c.*'' =
     Some (True, (NewIndex ''u'' ''t'' False ''auto''
      [\<lparr>Suffix = [], Prefix = ''x.'', Regex = None, Reverse = ''direct''\<rparr>,
       \<lparr>Suffix = ''.*'', Prefix = ''a.'', Regex = Some (\<lambda>s. length s < 9), Reverse = ''reversed''\<rparr>,
       \<lparr>Suffix = [], Prefix = [], Regex = None, Reverse = ''direct''\<rparr>] ())\<lparr>reverse := IndexReversed\<rparr>)"
proof -
  let ?r1 = "\<lparr>Suffix = [], Prefix = ''x.'', Regex = None, Reverse = ''direct''\<rparr>"
  let ?r2 = "\<lparr>Suffix = ''.*'', Prefix = ''a.'', Regex = Some (\<lambda>s. length s < 9), Reverse = ''reversed''\<rparr>"
  let ?r3 = "\<lparr>Suffix = [], Prefix = [], Regex = None, Reverse = ''direct''\<rparr>"
  let ?I = "NewIndex ''u'' ''t'' False ''auto'' [?r1, ?r2, ?r3] ()"
  have h: "reverse ?I = IndexAuto"
    by (simp add: NewIndex_def IndexAuto_def)
  have rules: "confReverses ?I = [?r1] @ ?r2 # [?r3]"
    by (simp add: NewIndex_def)
  have m1: "\<not> rule_matches ?r1 ''a.b.c.*''"
    by (simp add: rule_matches_def)
  have m2: "rule_matches ?r2 ''a.b.c.*''"
    by (simp add: rule_matches_def suffix_def)
  have pre: "\<forall>r\<in>set [?r1]. \<not> rule_matches r ''a.b.c.*''"
    using m1 by simp
  have hd: "heuristic ''*'' ''a.b.c.*'' = IndexDirect"
    by (simp add: heuristic_def firstWildcardDepth_def lastWildcardDepth_def has_wildcard_def)
  have d: "IndexReverse ''reversed'' = IndexReversed"
    by (simp add: IndexReverse_def)
  show ?thesis
    using first_matching_rule_forces [OF h rules pre m2, of "''*''"] h m1 m2 hd d
    by (simp add: codes_distinct)
qed

text \<open>
  C10. When the first matching rule carries the Auto direction, the scan stops at that
  rule: the result of \<^verbatim>\<open>checkReverses\<close> is Auto whatever rules follow it and whatever
  the configured direction, and the direction is resolved by the wildcard-position
  heuristic.
\<close>

theorem auto_rule_falls_through:
  assumes "reverse idx = IndexAuto"
    and "confReverses idx = pre @ rule # post"
    and "\<forall>r\<in>set pre. \<not> rule_matches r pattern"
    and "rule_matches rule pattern"
    and "IndexReverse (Reverse rule) = IndexAuto"
    and "CHR ''.'' \<notin> set wild"
  shows "checkReverses idx pattern = IndexAuto \<and>
     (\<forall>later conf. checkReverses (idx\<lparr>confReverses := pre @ rule # later, confReverse := conf\<rparr>) pattern
        = IndexAuto) \<and>
     useReverse wild idx pattern =
       Some (heuristic wild pattern = IndexReversed, idx\<lparr>reverse := heuristic wild pattern\<rparr>)"
proof -
  have c: "checkReverses idx pattern = IndexAuto"
    using assms(2,3,4,5) by (simp add: checkReverses_def checkReverses_loop_first_match)
  have l: "checkReverses (idx\<lparr>confReverses := pre @ rule # later, confReverse := conf\<rparr>) pattern = IndexAuto"
    for later conf
    using assms(3,4,5) by (simp add: checkReverses_def checkReverses_loop_first_match)
  have u: "reverse idx \<noteq> IndexDirect" "reverse idx \<noteq> IndexReversed"
    using assms(1) by (simp_all add: codes_distinct)
  show ?thesis using c l useReverse_heuristic [OF u c assms(6)] by simp
qed

theorem auto_rule_falls_through_witness:
  "reverse (NewIndex ''u'' ''t'' False ''auto''
      [\<lparr>Suffix = [], Prefix = ''x.'', Regex = None, Reverse = ''reversed''\<rparr>,
       \<lparr>Suffix = [], Prefix = ''a.'', Regex = None, Reverse = ''auto''\<rparr>,
       \<lparr>Suffix = [], Prefix = ''a.'', Regex = None, Reverse = ''reversed''\<rparr>] ()) = IndexAuto \<and>
   \<not> rule_matches \<lparr>Suffix = [], Prefix = ''x.'', Regex = None, Reverse = ''reversed''\<rparr> ''a.b.c.*'' \<and>
   rule_matches \<lparr>Suffix = [], Prefix = ''a.'', Regex = None, Reverse = ''auto''\<rparr> ''a.b.c.*'' \<and>
   rule_matches \<lparr>Suffix = [], Prefix = ''a.'', Regex = None, Reverse = ''reversed''\<rparr> ''a.b.c.*'' \<and>
   IndexReverse ''auto'' = IndexAuto \<and> CHR ''.'' \<notin> set ''*'' \<and>
   heuristic ''*'' ''a.b.c.*'' = IndexDirect \<and>
   useReverse ''*'' (NewIndex ''u'' ''t'' False ''auto''
      [\<lparr>Suffix = [], Prefix = ''x.'', Regex = None, Reverse = ''reversed''\<rparr>,
       \<lparr>Suffix = [], Prefix = ''a.'', Regex = None, Reverse = ''auto''\<rparr>,
       \<lparr>Suffix = [], Prefix = ''a.'', Regex = None, Reverse = ''reversed''\<rparr>] ()) ''a.b.c.*'' =
     Some (False, (NewIndex ''u'' ''t'' False ''auto''
      [\<lparr>Suffix = [], Prefix = ''x.'', Regex = None, Reverse = ''reversed''\<rparr>,
       \<lparr>Suffix = [], Prefix = ''a.'', Regex = None, Reverse = ''auto''\<rparr>,
       \<lparr>Suffix = [], Prefix = ''a.'', Regex = None, Reverse = ''reversed''\<rparr>] ())\<lparr>reverse := IndexDirect\<rparr>)"
proof -
  let ?r1 = "\<lparr>Suffix = [], Prefix = ''x.'', Regex = None, Reverse = ''reversed''\<rparr>"
  let ?r2 = "\<lparr>Suffix = [], Prefix = ''a.'', Regex = None, Reverse = ''auto''\<rparr>"
  let ?r3 = "\<lparr>Suffix = [], Prefix = ''a.'', Regex = None, Reverse = ''reversed''\<rparr>"
  let ?I = "NewIndex ''u'' ''t'' False ''auto'' [?r1, ?r2, ?r3] ()"
  have h: "reverse ?I = IndexAuto"
    by (simp add: NewIndex_def IndexAuto_def)
  have rules: "confReverses ?I = [?r1] @ ?r2 # [?r3]"
    by (simp add: NewIndex_def)
  have m1: "\<not> rule_matches ?r1 ''a.b.c.*''"
    by (simp add: rule_matches_def)
  have m2: "rule_matches ?r2 ''a.b.c.*''" and m3: "rule_matches ?r3 ''a.b.c.*''"
    by (simp_all add: rule_matches_def)
  have pre: "\<forall>r\<in>set [?r1]. \<not> rule_matches r ''a.b.c.*''"
    using m1 by simp
  have a: "IndexReverse (Reverse ?r2) = IndexAuto" "IndexReverse ''auto'' = IndexAuto"
    by (simp_all add: IndexReverse_def)
  have w: "CHR ''.'' \<notin> set ''*''" by simp
  have hd: "heuristic ''*'' ''a.b.c.*'' = IndexDirect"
    by (simp add: heuristic_def firstWildcardDepth_def lastWildcardDepth_def has_wildcard_def)
  show ?thesis
    using auto_rule_falls_through [OF h rules pre m2 a(1) w] h m1 m2 m3 a(2) hd
    by (simp add: codes_distinct)
qed

text \<open>
  C1. For every query executed on a finder with a valid configuration, \<^verbatim>\<open>Execute\<close>
  sends a predicate whose first conjunct is \<open>Level = level + offset\<close>, where the level
  is the number of separators of the pattern plus one (reversal keeps that number) and
  the offset is read from the table by the resolved direction and the daily mode:
  Reversed and daily 10000, Forward and not daily 20000, Reversed and not daily 30000,
  Forward and daily 0.
\<close>

theorem level_offset_selected:
  assumes "conf_ok idx"
  shows "\<exists>r rest.
     useReverse wild idx query = Some (r, idx\<lparr>reverse := if r then IndexReversed else IndexDirect\<rparr>) \<and>
     Count (if r then ReverseString query else query) CHR ''.'' = Count query CHR ''.'' \<and>
     (\<forall>Query. Execute wild unixFormat Query idx query from until =
        (case Query (table idx) (url idx)
           (SelectPath (table idx)
              (Eq ''Level'' (IntArg (int (Count (if r then ReverseString query else query) CHR ''.'') + 1 +
                   levelOffset_table r (dailyEnabled idx \<and> from > 0 \<and> until > 0))) # rest))
           (opts idx)
         of (b, err) \<Rightarrow>
           Some (err, idx\<lparr>reverse := if r then IndexReversed else IndexDirect,
                          useDaily := (dailyEnabled idx \<and> from > 0 \<and> until > 0), body := b\<rparr>)))"
proof -
  obtain r where r: "useReverse wild idx query = Some (r, idx\<lparr>reverse := if r then IndexReversed else IndexDirect\<rparr>)"
    using useReverse_total [OF assms] by blast
  have res: "reverse (idx\<lparr>reverse := if r then IndexReversed else IndexDirect\<rparr>) = (if r then IndexReversed else IndexDirect)"
    by simp
  let ?rest = "[TreeGlob ''Path'' (if r then ReverseString query else query),
          if dailyEnabled idx \<and> from > 0 \<and> until > 0
          then Fmt (''Date >='%s' AND Date <= '%s'' @ [CHR 0x27])
                 [unixFormat from ''2006-01-02'', unixFormat until ''2006-01-02'']
          else Eq ''Date'' (StrArg ''1970-02-12'')]"
  have "Execute wild unixFormat Query idx query from until =
        (case Query (table idx) (url idx)
           (SelectPath (table idx)
              (Eq ''Level'' (IntArg (int (Count (if r then ReverseString query else query) CHR ''.'') + 1 +
                   levelOffset_table r (dailyEnabled idx \<and> from > 0 \<and> until > 0))) # ?rest))
           (opts idx)
         of (b, err) \<Rightarrow>
           Some (err, idx\<lparr>reverse := if r then IndexReversed else IndexDirect,
                          useDaily := (dailyEnabled idx \<and> from > 0 \<and> until > 0), body := b\<rparr>))"
    for Query :: "string \<Rightarrow> string \<Rightarrow> sql \<Rightarrow> 'a \<Rightarrow> char slice \<times> 'b option"
    using Execute_eq [OF r res, of unixFormat Query "from" until] by simp
  moreover have "Count (if r then ReverseString query else query) CHR ''.'' = Count query CHR ''.''"
    by (simp add: Count_ReverseString)
  ultimately show ?thesis using r by blast
qed

theorem level_offset_selected_witness:
  "conf_ok (NewIndex ''u'' ''t'' False ''auto'' [] ()) \<and>
   (\<exists>rest. \<forall>Query :: string \<Rightarrow> string \<Rightarrow> sql \<Rightarrow> unit \<Rightarrow> char slice \<times> unit option.
      Execute ''*'' (\<lambda>t layout. layout) Query (NewIndex ''u'' ''t'' False ''auto'' [] ()) ''a.b.c'' 0 0 =
        (case Query ''t'' ''u'' (SelectPath ''t'' (Eq ''Level'' (IntArg 20003) # rest)) ()
         of (b, err) \<Rightarrow>
           Some (err, (NewIndex ''u'' ''t'' False ''auto'' [] ())
                        \<lparr>reverse := IndexDirect, useDaily := False, body := b\<rparr>)))"
proof -
  let ?I = "NewIndex ''u'' ''t'' False ''auto'' [] () :: unit IndexFinder"
  have ok: "conf_ok ?I" by (rule NewIndex_conf_ok)
  have u: "reverse ?I \<noteq> IndexDirect" "reverse ?I \<noteq> IndexReversed"
    by (simp_all add: NewIndex_def IndexDirect_def IndexReversed_def)
  have c: "checkReverses ?I ''a.b.c'' = IndexAuto"
    by (simp add: checkReverses_def NewIndex_def IndexReverse_def)
  have w: "\<not> has_wildcard ''*'' ''a.b.c''" by (simp add: has_wildcard_def)
  have f: "useReverse ''*'' ?I ''a.b.c'' = Some (False, ?I\<lparr>reverse := IndexDirect\<rparr>)"
    by (rule useReverse_literal [OF u c w])
  have n: "Count ''a.b.c'' CHR ''.'' = 2" by (simp add: Count_def)
  have t: "levelOffset_table False False = 20000" by (simp add: levelOffset_table_def)
  have p: "table ?I = ''t''" "url ?I = ''u''" "opts ?I = ()" "dailyEnabled ?I = False"
    by (simp_all add: NewIndex_def)
  from level_offset_selected [OF ok, of "''*''" "''a.b.c''" "\<lambda>t layout. layout" 0 0]
  obtain r rest where
    r: "useReverse ''*'' ?I ''a.b.c'' = Some (r, ?I\<lparr>reverse := if r then IndexReversed else IndexDirect\<rparr>)"
    and e: "\<forall>Query :: string \<Rightarrow> string \<Rightarrow> sql \<Rightarrow> unit \<Rightarrow> char slice \<times> unit option.
       Execute ''*'' (\<lambda>t layout. layout) Query ?I ''a.b.c'' 0 0 =
        (case Query (table ?I) (url ?I)
           (SelectPath (table ?I)
              (Eq ''Level'' (IntArg (int (Count (if r then ReverseString ''a.b.c'' else ''a.b.c'') CHR ''.'') + 1 +
                   levelOffset_table r (dailyEnabled ?I \<and> (0::int) > 0 \<and> (0::int) > 0))) # rest))
           (opts ?I)
         of (b, err) \<Rightarrow>
           Some (err, ?I\<lparr>reverse := if r then IndexReversed else IndexDirect,
                          useDaily := (dailyEnabled ?I \<and> (0::int) > 0 \<and> (0::int) > 0), body := b\<rparr>))"
    by blast
  from r f have "Some (r, ?I\<lparr>reverse := if r then IndexReversed else IndexDirect\<rparr>) =
      Some (False, ?I\<lparr>reverse := IndexDirect\<rparr>)"
    by (rule trans [OF sym])
  then have rF: "r = False" by (simp only: option.inject prod.inject)
  have "Execute ''*'' (\<lambda>t layout. layout) Query ?I ''a.b.c'' 0 0 =
        (case Query ''t'' ''u'' (SelectPath ''t'' (Eq ''Level'' (IntArg 20003) # rest)) ()
         of (b, err) \<Rightarrow> Some (err, ?I\<lparr>reverse := IndexDirect, useDaily := False, body := b\<rparr>))"
    for Query :: "string \<Rightarrow> string \<Rightarrow> sql \<Rightarrow> unit \<Rightarrow> char slice \<times> unit option"
    unfolding e [rule_format, of Query] rF p by (simp add: n t)
  then show ?thesis using ok by blast
qed

text \<open>
  C7. For every \<^verbatim>\<open>Execute(pattern, from, until)\<close> on a finder with a valid
  configuration, daily mode is on exactly when the daily flag is set and both bounds are
  positive; the third conjunct of the predicate is then the range \<open>Date >= .. AND Date <= ..\<close>
  over the two bounds formatted with the layout \<^verbatim>\<open>2006-01-02\<close>, and otherwise the
  equality of \<open>Date\<close> with the sentinel date \<^verbatim>\<open>1970-02-12\<close>.
\<close>

theorem daily_mode_and_date_clause:
  assumes "conf_ok idx"
  shows "\<exists>r level glob.
     useReverse wild idx query = Some (r, idx\<lparr>reverse := if r then IndexReversed else IndexDirect\<rparr>) \<and>
     (\<forall>Query. Execute wild unixFormat Query idx query from until =
        (case Query (table idx) (url idx)
           (SelectPath (table idx)
              [level, glob,
               if dailyEnabled idx \<and> from > 0 \<and> until > 0
               then Fmt (''Date >='%s' AND Date <= '%s'' @ [CHR 0x27])
                      [unixFormat from ''2006-01-02'', unixFormat until ''2006-01-02'']
               else Eq ''Date'' (StrArg ''1970-02-12'')])
           (opts idx)
         of (b, err) \<Rightarrow>
           Some (err, idx\<lparr>reverse := if r then IndexReversed else IndexDirect,
                          useDaily := (dailyEnabled idx \<and> from > 0 \<and> until > 0), body := b\<rparr>)))"
proof -
  obtain r where r: "useReverse wild idx query = Some (r, idx\<lparr>reverse := if r then IndexReversed else IndexDirect\<rparr>)"
    using useReverse_total [OF assms] by blast
  have res: "reverse (idx\<lparr>reverse := if r then IndexReversed else IndexDirect\<rparr>) = (if r then IndexReversed else IndexDirect)"
    by simp
  let ?level = "Eq ''Level'' (IntArg (int (Count (if r then ReverseString query else query) CHR ''.'') + 1 +
                   levelOffset_table r (dailyEnabled idx \<and> from > 0 \<and> until > 0)))"
  let ?glob = "TreeGlob ''Path'' (if r then ReverseString query else query)"
  have "Execute wild unixFormat Query idx query from until =
        (case Query (table idx) (url idx)
           (SelectPath (table idx)
              [?level, ?glob,
               if dailyEnabled idx \<and> from > 0 \<and> until > 0
               then Fmt (''Date >='%s' AND Date <= '%s'' @ [CHR 0x27])
                      [unixFormat from ''2006-01-02'', unixFormat until ''2006-01-02'']
               else Eq ''Date'' (StrArg ''1970-02-12'')])
           (opts idx)
         of (b, err) \<Rightarrow>
           Some (err, idx\<lparr>reverse := if r then IndexReversed else IndexDirect,
                          useDaily := (dailyEnabled idx \<and> from > 0 \<and> until > 0), body := b\<rparr>))"
    for Query :: "string \<Rightarrow> string \<Rightarrow> sql \<Rightarrow> 'a \<Rightarrow> char slice \<times> 'b option"
    using Execute_eq [OF r res, of unixFormat Query "from" until] by simp
  then show ?thesis using r by blast
qed

theorem daily_mode_and_date_clause_witness:
  "conf_ok (NewIndex ''u'' ''t'' True ''direct'' [] ()) \<and>
   (\<exists>level glob. \<forall>Query :: string \<Rightarrow> string \<Rightarrow> sql \<Rightarrow> unit \<Rightarrow> char slice \<times> unit option.
      Execute ''*'' (\<lambda>t layout. if t = 86400 then ''1970-01-02'' else ''1970-01-03'') Query
          (NewIndex ''u'' ''t'' True ''direct'' [] ()) ''a.b.c'' 86400 172800 =
        (case Query ''t'' ''u''
           (SelectPath ''t''
              [level, glob,
               Fmt (''Date >='%s' AND Date <= '%s'' @ [CHR 0x27]) [''1970-01-02'', ''1970-01-03'']]) ()
         of (b, err) \<Rightarrow>
           Some (err, (NewIndex ''u'' ''t'' True ''direct'' [] ())
                        \<lparr>reverse := IndexDirect, useDaily := True, body := b\<rparr>))) \<and>
   (\<exists>level glob. \<forall>Query :: string \<Rightarrow> string \<Rightarrow> sql \<Rightarrow> unit \<Rightarrow> char slice \<times> unit option.
      Execute ''*'' (\<lambda>t layout. if t = 86400 then ''1970-01-02'' else ''1970-01-03'') Query
          (NewIndex ''u'' ''t'' True ''direct'' [] ()) ''a.b.c'' 0 172800 =
        (case Query ''t'' ''u''
           (SelectPath ''t'' [level, glob, Eq ''Date'' (StrArg ''1970-02-12'')]) ()
         of (b, err) \<Rightarrow>
           Some (err, (NewIndex ''u'' ''t'' True ''direct'' [] ())
                        \<lparr>reverse := IndexDirect, useDaily := False, body := b\<rparr>)))"
proof -
  let ?I = "NewIndex ''u'' ''t'' True ''direct'' [] () :: unit IndexFinder"
  let ?F = "\<lambda>(t::int) (layout::string). if t = 86400 then ''1970-01-02'' else ''1970-01-03''"
  have ok: "conf_ok ?I" by (rule NewIndex_conf_ok)
  have u: "reverse ?I \<noteq> IndexDirect" "reverse ?I \<noteq> IndexReversed"
    by (simp_all add: NewIndex_def IndexDirect_def IndexReversed_def)
  have c: "checkReverses ?I ''a.b.c'' = IndexDirect"
    by (simp add: checkReverses_def NewIndex_def IndexReverse_def)
  have f: "useReverse ''*'' ?I ''a.b.c'' = Some (IndexDirect = IndexReversed, ?I\<lparr>reverse := IndexDirect\<rparr>)"
    by (rule useReverse_forced [OF u c]) simp
  have p: "table ?I = ''t''" "url ?I = ''u''" "opts ?I = ()" "dailyEnabled ?I = True"
    by (simp_all add: NewIndex_def)
  have A: "\<exists>level glob. \<forall>Query :: string \<Rightarrow> string \<Rightarrow> sql \<Rightarrow> unit \<Rightarrow> char slice \<times> unit option.
      Execute ''*'' ?F Query ?I ''a.b.c'' 86400 172800 =
        (case Query ''t'' ''u''
           (SelectPath ''t''
              [level, glob,
               Fmt (''Date >='%s' AND Date <= '%s'' @ [CHR 0x27]) [''1970-01-02'', ''1970-01-03'']]) ()
         of (b, err) \<Rightarrow> Some (err, ?I\<lparr>reverse := IndexDirect, useDaily := True, body := b\<rparr>))"
  proof -
    from daily_mode_and_date_clause [OF ok, of "''*''" "''a.b.c''" ?F 86400 172800]
    obtain r level glob where
      r: "useReverse ''*'' ?I ''a.b.c'' = Some (r, ?I\<lparr>reverse := if r then IndexReversed else IndexDirect\<rparr>)"
      and e: "\<forall>Query :: string \<Rightarrow> string \<Rightarrow> sql \<Rightarrow> unit \<Rightarrow> char slice \<times> unit option.
        Execute ''*'' ?F Query ?I ''a.b.c'' 86400 172800 =
        (case Query (table ?I) (url ?I)
           (SelectPath (table ?I)
              [level, glob,
               if dailyEnabled ?I \<and> (86400::int) > 0 \<and> (172800::int) > 0
               then Fmt (''Date >='%s' AND Date <= '%s'' @ [CHR 0x27])
                      [?F 86400 ''2006-01-02'', ?F 172800 ''2006-01-02'']
               else Eq ''Date'' (StrArg ''1970-02-12'')])
           (opts ?I)
         of (b, err) \<Rightarrow>
           Some (err, ?I\<lparr>reverse := if r then IndexReversed else IndexDirect,
                          useDaily := (dailyEnabled ?I \<and> (86400::int) > 0 \<and> (172800::int) > 0), body := b\<rparr>))"
      by blast
    from r f have "Some (r, ?I\<lparr>reverse := if r then IndexReversed else IndexDirect\<rparr>) =
        Some (IndexDirect = IndexReversed, ?I\<lparr>reverse := IndexDirect\<rparr>)"
      by (rule trans [OF sym])
    then have rF: "r = False" by (simp only: option.inject prod.inject codes_distinct)
    have "Execute ''*'' ?F Query ?I ''a.b.c'' 86400 172800 =
        (case Query ''t'' ''u''
           (SelectPath ''t''
              [level, glob,
               Fmt (''Date >='%s' AND Date <= '%s'' @ [CHR 0x27]) [''1970-01-02'', ''1970-01-03'']]) ()
         of (b, err) \<Rightarrow> Some (err, ?I\<lparr>reverse := IndexDirect, useDaily := True, body := b\<rparr>))"
      for Query :: "string \<Rightarrow> string \<Rightarrow> sql \<Rightarrow> unit \<Rightarrow> char slice \<times> unit option"
      unfolding e [rule_format, of Query] rF p by simp
    then show ?thesis by blast
  qed
  have B: "\<exists>level glob. \<forall>Query :: string \<Rightarrow> string \<Rightarrow> sql \<Rightarrow> unit \<Rightarrow> char slice \<times> unit option.
      Execute ''*'' ?F Query ?I ''a.b.c'' 0 172800 =
        (case Query ''t'' ''u''
           (SelectPath ''t'' [level, glob, Eq ''Date'' (StrArg ''1970-02-12'')]) ()
         of (b, err) \<Rightarrow> Some (err, ?I\<lparr>reverse := IndexDirect, useDaily := False, body := b\<rparr>))"
  proof -
    from daily_mode_and_date_clause [OF ok, of "''*''" "''a.b.c''" ?F 0 172800]
    obtain r level glob where
      r: "useReverse ''*'' ?I ''a.b.c'' = Some (r, ?I\<lparr>reverse := if r then IndexReversed else IndexDirect\<rparr>)"
      and e: "\<forall>Query :: string \<Rightarrow> string \<Rightarrow> sql \<Rightarrow> unit \<Rightarrow> char slice \<times> unit option.
        Execute ''*'' ?F Query ?I ''a.b.c'' 0 172800 =
        (case Query (table ?I) (url ?I)
           (SelectPath (table ?I)
              [level, glob,
               if dailyEnabled ?I \<and> (0::int) > 0 \<and> (172800::int) > 0
               then Fmt (''Date >='%s' AND Date <= '%s'' @ [CHR 0x27])
                      [?F 0 ''2006-01-02'', ?F 172800 ''2006-01-02'']
               else Eq ''Date'' (StrArg ''1970-02-12'')])
           (opts ?I)
         of (b, err) \<Rightarrow>
           Some (err, ?I\<lparr>reverse := if r then IndexReversed else IndexDirect,
                          useDaily := (dailyEnabled ?I \<and> (0::int) > 0 \<and> (172800::int) > 0), body := b\<rparr>))"
      by blast
    from r f have "Some (r, ?I\<lparr>reverse := if r then IndexReversed else IndexDirect\<rparr>) =
        Some (IndexDirect = IndexReversed, ?I\<lparr>reverse := IndexDirect\<rparr>)"
      by (rule trans [OF sym])
    then have rF: "r = False" by (simp only: option.inject prod.inject codes_distinct)
    have "Execute ''*'' ?F Query ?I ''a.b.c'' 0 172800 =
        (case Query ''t'' ''u''
           (SelectPath ''t'' [level, glob, Eq ''Date'' (StrArg ''1970-02-12'')]) ()
         of (b, err) \<Rightarrow> Some (err, ?I\<lparr>reverse := IndexDirect, useDaily := False, body := b\<rparr>))"
      for Query :: "string \<Rightarrow> string \<Rightarrow> sql \<Rightarrow> unit \<Rightarrow> char slice \<times> unit option"
      unfolding e [rule_format, of Query] rF p by simp
    then show ?thesis by blast
  qed
  from ok A B show ?thesis by blast
qed

text \<open>
  C3. On a finder with a valid configuration the first call of \<^verbatim>\<open>useReverse\<close> leaves
  the direction at Forward or Reversed, never Auto. From then on every call of
  \<^verbatim>\<open>useReverse\<close>, whatever its pattern, returns the same answer and the same state,
  and neither \<^verbatim>\<open>Execute\<close> nor the decoder changes the direction again.
\<close>

theorem direction_resolved_once:
  assumes "conf_ok idx"
  shows "\<exists>r idx1. useReverse wild idx query = Some (r, idx1) \<and>
     reverse idx1 = (if r then IndexReversed else IndexDirect) \<and> reverse idx1 \<noteq> IndexAuto \<and>
     (\<forall>wild' query'. useReverse wild' idx1 query' = Some (r, idx1)) \<and>
     (\<forall>wild' unixFormat Query query' from until.
        \<exists>err idx2. Execute wild' unixFormat Query idx1 query' from until = Some (err, idx2) \<and>
          reverse idx2 = reverse idx1) \<and>
     (\<forall>wild' onlySeries. \<exists>rows. makeList wild' idx1 onlySeries = Some (rows, idx1))"
proof -
  obtain r where r: "useReverse wild idx query = Some (r, idx\<lparr>reverse := if r then IndexReversed else IndexDirect\<rparr>)"
    using useReverse_total [OF assms] by blast
  let ?idx1 = "idx\<lparr>reverse := if r then IndexReversed else IndexDirect\<rparr>"
  have res: "reverse ?idx1 = (if r then IndexReversed else IndexDirect)" by simp
  have na: "reverse ?idx1 \<noteq> IndexAuto" by (simp add: codes_distinct)
  have again: "useReverse wild' ?idx1 query' = Some (r, ?idx1)" for wild' query'
    by (rule useReverse_cached [OF res])
  have ex: "\<exists>err idx2. Execute wild' unixFormat Query ?idx1 query' from until = Some (err, idx2) \<and>
          reverse idx2 = reverse ?idx1"
    for wild' unixFormat query' "from" until
      and Query :: "string \<Rightarrow> string \<Rightarrow> sql \<Rightarrow> 'a \<Rightarrow> char slice \<times> 'b option"
    using Execute_eq [OF again [of wild' query'] res, of unixFormat Query "from" until]
    by (auto split: prod.splits)
  have ml: "\<exists>rows. makeList wild' ?idx1 onlySeries = Some (rows, ?idx1)" for wild' onlySeries
    using makeList_resolved [OF res, of wild' onlySeries] by blast
  show ?thesis using r res na again ex ml by blast
qed

theorem direction_resolved_once_witness:
  "conf_ok (NewIndex ''u'' ''t'' False ''auto'' [] ()) \<and>
   useReverse ''*'' (NewIndex ''u'' ''t'' False ''auto'' [] ()) ''*.b.c.d'' =
     Some (True, (NewIndex ''u'' ''t'' False ''auto'' [] ())\<lparr>reverse := IndexReversed\<rparr>) \<and>
   useReverse ''*'' (NewIndex ''u'' ''t'' False ''auto'' [] ()) ''a.b.c.*'' =
     Some (False, (NewIndex ''u'' ''t'' False ''auto'' [] ())\<lparr>reverse := IndexDirect\<rparr>) \<and>
   useReverse ''*'' ((NewIndex ''u'' ''t'' False ''auto'' [] ())\<lparr>reverse := IndexReversed\<rparr>) ''a.b.c.*'' =
     Some (True, (NewIndex ''u'' ''t'' False ''auto'' [] ())\<lparr>reverse := IndexReversed\<rparr>)"
proof -
  let ?I = "NewIndex ''u'' ''t'' False ''auto'' [] () :: unit IndexFinder"
  have ok: "conf_ok ?I" by (rule NewIndex_conf_ok)
  have u: "reverse ?I \<noteq> IndexDirect" "reverse ?I \<noteq> IndexReversed"
    by (simp_all add: NewIndex_def IndexDirect_def IndexReversed_def)
  have c: "checkReverses ?I q = IndexAuto" for q
    by (simp add: checkReverses_def NewIndex_def IndexReverse_def)
  have w: "has_wildcard ''*'' ''*.b.c.d''" "has_wildcard ''*'' ''a.b.c.*''" "CHR ''.'' \<notin> set ''*''"
    by (simp_all add: has_wildcard_def)
  have d: "firstWildcardDepth ''*'' ''*.b.c.d'' < lastWildcardDepth ''*'' ''*.b.c.d''"
    "\<not> firstWildcardDepth ''*'' ''a.b.c.*'' < lastWildcardDepth ''*'' ''a.b.c.*''"
    by (simp_all add: firstWildcardDepth_def lastWildcardDepth_def has_wildcard_def)
  have f1: "useReverse ''*'' ?I ''*.b.c.d'' = Some (True, ?I\<lparr>reverse := IndexReversed\<rparr>)"
    using useReverse_wildcard [OF u c w(1) w(3)] d(1) by simp
  have f2: "useReverse ''*'' ?I ''a.b.c.*'' = Some (False, ?I\<lparr>reverse := IndexDirect\<rparr>)"
    using useReverse_wildcard [OF u c w(2) w(3)] d(2) by simp
  from direction_resolved_once [OF ok, of "''*''" "''*.b.c.d''"]
  obtain r idx1 where r: "useReverse ''*'' ?I ''*.b.c.d'' = Some (r, idx1)"
    and a: "\<forall>wild' query'. useReverse wild' idx1 query' = Some (r, idx1)"
    by blast
  from r f1 have "Some (r, idx1) = Some (True, ?I\<lparr>reverse := IndexReversed\<rparr>)"
    by (rule trans [OF sym])
  then have "r = True" "idx1 = ?I\<lparr>reverse := IndexReversed\<rparr>"
    by (simp_all only: option.inject prod.inject)
  with a have "useReverse ''*'' (?I\<lparr>reverse := IndexReversed\<rparr>) ''a.b.c.*'' =
      Some (True, ?I\<lparr>reverse := IndexReversed\<rparr>)"
    by blast
  with ok f1 f2 show ?thesis by blast
qed

text \<open>
  C5. On a finder with a valid configuration \<^verbatim>\<open>List()\<close> and \<^verbatim>\<open>Series()\<close> return
  for every response body: each yields a sequence that is not nil, and for a nil or an
  empty body the sequence is empty.
\<close>

theorem decoding_never_fails:
  assumes "conf_ok idx"
  shows "\<exists>l s idx1 idx2. List wild idx = Some (Slice l, idx1) \<and> Series wild idx = Some (Slice s, idx2) \<and>
     (body idx = NilSlice \<or> body idx = Slice [] \<longrightarrow> l = [] \<and> s = [])"
  using makeList_total [OF assms, of wild False] makeList_total [OF assms, of wild True]
  unfolding List_def Series_def by blast

theorem decoding_never_fails_witness:
  "conf_ok (NewIndex ''u'' ''t'' False ''auto'' [] ()) \<and>
   body (NewIndex ''u'' ''t'' False ''auto'' [] ()) = NilSlice \<and>
   (\<exists>idx1 idx2. List ''*'' (NewIndex ''u'' ''t'' False ''auto'' [] ()) = Some (Slice [], idx1) \<and>
      Series ''*'' (NewIndex ''u'' ''t'' False ''auto'' [] ()) = Some (Slice [], idx2)) \<and>
   conf_ok ((NewIndex ''u'' ''t'' False ''auto'' [] ())\<lparr>body := Slice []\<rparr>) \<and>
   (\<exists>idx1 idx2. List ''*'' ((NewIndex ''u'' ''t'' False ''auto'' [] ())\<lparr>body := Slice []\<rparr>) = Some (Slice [], idx1) \<and>
      Series ''*'' ((NewIndex ''u'' ''t'' False ''auto'' [] ())\<lparr>body := Slice []\<rparr>) = Some (Slice [], idx2))"
proof -
  let ?I = "NewIndex ''u'' ''t'' False ''auto'' [] () :: unit IndexFinder"
  have ok: "conf_ok ?I" by (rule NewIndex_conf_ok)
  then have ok2: "conf_ok (?I\<lparr>body := Slice []\<rparr>)" by (simp add: conf_ok_def)
  have b: "body ?I = NilSlice" "body (?I\<lparr>body := Slice []\<rparr>) = Slice []"
    by (simp_all add: NewIndex_def)
  show ?thesis
    using decoding_never_fails [OF ok, of "''*''"] decoding_never_fails [OF ok2, of "''*''"] ok ok2 b
    by (simp only: simp_thms) blast
qed

text \<open>
  C9. After \<^verbatim>\<open>Execute\<close> on a finder with a valid configuration, \<^verbatim>\<open>List()\<close> and
  \<^verbatim>\<open>Series()\<close> leave the whole finder, the response body included, as it is, and they
  have no access to the store; so any run of calls returns, call by call, the one
  sequence of \<^verbatim>\<open>List()\<close> and the one sequence of \<^verbatim>\<open>Series()\<close>.
\<close>

theorem decoding_repeatable:
  assumes "conf_ok idx"
    and "Execute wild unixFormat Query idx query from until = Some (err, idx1)"
  shows "\<exists>l s. List wild idx1 = Some (l, idx1) \<and> Series wild idx1 = Some (s, idx1) \<and>
     (\<forall>calls. decode_calls wild idx1 calls = Some (map (\<lambda>c. if c then s else l) calls, idx1))"
proof -
  obtain r where e: "Execute wild unixFormat Query idx query from until =
    (case Query (table idx) (url idx)
       (SelectPath (table idx)
         [Eq ''Level'' (IntArg (int (Count (if r then ReverseString query else query) CHR ''.'') + 1 +
            levelOffset_table r (dailyEnabled idx \<and> from > 0 \<and> until > 0))),
          TreeGlob ''Path'' (if r then ReverseString query else query),
          if dailyEnabled idx \<and> from > 0 \<and> until > 0
          then Fmt (''Date >='%s' AND Date <= '%s'' @ [CHR 0x27])
                 [unixFormat from ''2006-01-02'', unixFormat until ''2006-01-02'']
          else Eq ''Date'' (StrArg ''1970-02-12'')])
       (opts idx)
     of (b, err) \<Rightarrow>
       Some (err, idx\<lparr>reverse := if r then IndexReversed else IndexDirect,
                      useDaily := (dailyEnabled idx \<and> from > 0 \<and> until > 0), body := b\<rparr>))"
    using Execute_total [OF assms(1), of wild query unixFormat Query "from" until] by blast
  have res: "reverse idx1 = (if r then IndexReversed else IndexDirect)"
    using assms(2) unfolding e by (auto split: prod.splits)
  let ?l = "fst (the (makeList wild idx1 False))"
  let ?s = "fst (the (makeList wild idx1 True))"
  have "List wild idx1 = Some (?l, idx1)" "Series wild idx1 = Some (?s, idx1)"
    by (simp_all add: List_def Series_def makeList_resolved [OF res])
  moreover have "decode_calls wild idx1 calls = Some (map (\<lambda>c. if c then ?s else ?l) calls, idx1)"
    for calls
  proof -
    have "(\<lambda>c. fst (the (makeList wild idx1 c))) = (\<lambda>c. if c then ?s else ?l)" by auto
    then show ?thesis using decode_calls_resolved [OF res, of wild calls] by simp
  qed
  ultimately show ?thesis by blast
qed

theorem decoding_repeatable_witness:
  "conf_ok (NewIndex ''u'' ''t'' False ''auto'' [] ()) \<and>
   Execute ''*'' (\<lambda>t layout. layout) (\<lambda>t u s x. (Slice ''a.b.\<newline>a.b.c\<newline>'', None :: unit option))
      (NewIndex ''u'' ''t'' False ''auto'' [] ()) ''a.b*'' 0 0 =
     Some (None, (NewIndex ''u'' ''t'' False ''auto'' [] ())
        \<lparr>reverse := IndexDirect, useDaily := False, body := Slice ''a.b.\<newline>a.b.c\<newline>''\<rparr>) \<and>
   decode_calls ''*'' ((NewIndex ''u'' ''t'' False ''auto'' [] ())
        \<lparr>reverse := IndexDirect, useDaily := False, body := Slice ''a.b.\<newline>a.b.c\<newline>''\<rparr>)
      [False, False, True, False] =
     Some ([Slice [''a.b.'', ''a.b.c''], Slice [''a.b.'', ''a.b.c''], Slice [''a.b.c''],
            Slice [''a.b.'', ''a.b.c'']],
           (NewIndex ''u'' ''t'' False ''auto'' [] ())
        \<lparr>reverse := IndexDirect, useDaily := False, body := Slice ''a.b.\<newline>a.b.c\<newline>''\<rparr>)"
proof -
  let ?I = "NewIndex ''u'' ''t'' False ''auto'' [] () :: unit IndexFinder"
  let ?Q = "\<lambda>(t::string) (u::string) (s::sql) (x::unit). (Slice ''a.b.\<newline>a.b.c\<newline>'', None :: unit option)"
  let ?I1 = "?I\<lparr>reverse := IndexDirect, useDaily := False, body := Slice ''a.b.\<newline>a.b.c\<newline>''\<rparr>"
  have ok: "conf_ok ?I" by (rule NewIndex_conf_ok)
  have u: "reverse ?I \<noteq> IndexDirect" "reverse ?I \<noteq> IndexReversed"
    by (simp_all add: NewIndex_def IndexDirect_def IndexReversed_def)
  have c: "checkReverses ?I ''a.b*'' = IndexAuto"
    by (simp add: checkReverses_def NewIndex_def IndexReverse_def)
  have w: "has_wildcard ''*'' ''a.b*''" "CHR ''.'' \<notin> set ''*''"
    by (simp_all add: has_wildcard_def)
  have d: "\<not> firstWildcardDepth ''*'' ''a.b*'' < lastWildcardDepth ''*'' ''a.b*''"
    by (simp add: firstWildcardDepth_def lastWildcardDepth_def has_wildcard_def)
  have f: "useReverse ''*'' ?I ''a.b*'' = Some (False, ?I\<lparr>reverse := IndexDirect\<rparr>)"
    using useReverse_wildcard [OF u c w] d by simp
  have res: "reverse (?I\<lparr>reverse := IndexDirect\<rparr>) = (if False then IndexReversed else IndexDirect)"
    by simp
  have e: "Execute ''*'' (\<lambda>t layout. layout) ?Q ?I ''a.b*'' 0 0 = Some (None, ?I1)"
    using Execute_eq [OF f res, of "\<lambda>t layout. layout" ?Q 0 0] by (simp add: NewIndex_def)
  have r1: "reverse ?I1 = (if False then IndexReversed else IndexDirect)" by simp
  have l: "List ''*'' ?I1 = Some (Slice [''a.b.'', ''a.b.c''], ?I1)"
    unfolding List_def makeList_resolved [OF r1] by (simp add: retained_def)
  have s: "Series ''*'' ?I1 = Some (Slice [''a.b.c''], ?I1)"
    unfolding Series_def makeList_resolved [OF r1] by (simp add: retained_def)
  from decoding_repeatable [OF ok e]
  obtain l' s' where a: "List ''*'' ?I1 = Some (l', ?I1)" "Series ''*'' ?I1 = Some (s', ?I1)"
    and b: "\<forall>calls. decode_calls ''*'' ?I1 calls = Some (map (\<lambda>c. if c then s' else l') calls, ?I1)"
    by blast
  from a(1) l have "Some (l', ?I1) = Some (Slice [''a.b.'', ''a.b.c''], ?I1)" by (rule trans [OF sym])
  then have l': "l' = Slice [''a.b.'', ''a.b.c'']" by (simp only: option.inject prod.inject)
  from a(2) s have "Some (s', ?I1) = Some (Slice [''a.b.c''], ?I1)" by (rule trans [OF sym])
  then have s': "s' = Slice [''a.b.c'']" by (simp only: option.inject prod.inject)
  have "decode_calls ''*'' ?I1 [False, False, True, False] =
      Some ([Slice [''a.b.'', ''a.b.c''], Slice [''a.b.'', ''a.b.c''], Slice [''a.b.c''],
            Slice [''a.b.'', ''a.b.c'']], ?I1)"
    unfolding b [rule_format, of "[False, False, True, False]"] l' s' by simp
  with ok e show ?thesis by blast
qed

text \<open>
  C6, as amended. For every response body the decoder splits on the newline byte, drops
  the empty lines and, for \<^verbatim>\<open>Series()\<close>, also exactly the lines whose final byte is
  the separator, keeping the order of the lines retained; when the direction is Reversed
  each retained line is then replaced by its un-reversal. Hence with the direction
  Forward \<^verbatim>\<open>Series()\<close> never returns an entry ending in the separator and the output
  of \<^verbatim>\<open>List()\<close> filtered by the directory marker is the output of \<^verbatim>\<open>Series()\<close>; with
  the direction Reversed both hold of the lines before un-reversal.
\<close>

theorem decoder_filters_then_unreverses:
  assumes "conf_ok idx" and "body idx = Slice b"
  shows "\<exists>r idx1 l s. useReverse wild idx [] = Some (r, idx1) \<and>
     List wild idx = Some (Slice l, idx1) \<and> Series wild idx = Some (Slice s, idx1) \<and>
     l = map (if r then ReverseBytes else id) (filter (\<lambda>line. line \<noteq> []) (Split b (CHR 0x0A))) \<and>
     s = map (if r then ReverseBytes else id)
           (filter (\<lambda>line. last line \<noteq> CHR ''.'') (filter (\<lambda>line. line \<noteq> []) (Split b (CHR 0x0A)))) \<and>
     (\<not> r \<longrightarrow> (\<forall>row\<in>set s. last row \<noteq> CHR ''.'') \<and> filter (\<lambda>row. last row \<noteq> CHR ''.'') l = s)"
proof -
  obtain r where r: "useReverse wild idx [] = Some (r, idx\<lparr>reverse := if r then IndexReversed else IndexDirect\<rparr>)"
    using useReverse_total [OF assms(1)] by blast
  have f0: "filter (retained False) xs = filter (\<lambda>line. line \<noteq> []) xs" for xs
    by (induction xs) (auto simp: retained_def)
  have f1: "filter (retained True) xs = filter (\<lambda>line. last line \<noteq> CHR ''.'') (filter (\<lambda>line. line \<noteq> []) xs)"
    for xs
    by (induction xs) (auto simp: retained_def)
  show ?thesis
    using r assms(2)
    by (cases r) (auto simp: List_def Series_def makeList_eq f0 f1)
qed

theorem decoder_filters_then_unreverses_witness:
  "conf_ok ((NewIndex ''u'' ''t'' False ''direct'' [] ())\<lparr>body := Slice ''a.b.\<newline>a.b.c\<newline>''\<rparr>) \<and>
   body ((NewIndex ''u'' ''t'' False ''direct'' [] ())\<lparr>body := Slice ''a.b.\<newline>a.b.c\<newline>''\<rparr>) =
     Slice ''a.b.\<newline>a.b.c\<newline>'' \<and>
   useReverse ''*'' ((NewIndex ''u'' ''t'' False ''direct'' [] ())\<lparr>body := Slice ''a.b.\<newline>a.b.c\<newline>''\<rparr>) [] =
     Some (False, (NewIndex ''u'' ''t'' False ''direct'' [] ())
        \<lparr>body := Slice ''a.b.\<newline>a.b.c\<newline>'', reverse := IndexDirect\<rparr>) \<and>
   List ''*'' ((NewIndex ''u'' ''t'' False ''direct'' [] ())\<lparr>body := Slice ''a.b.\<newline>a.b.c\<newline>''\<rparr>) =
     Some (Slice [''a.b.'', ''a.b.c''], (NewIndex ''u'' ''t'' False ''direct'' [] ())
        \<lparr>body := Slice ''a.b.\<newline>a.b.c\<newline>'', reverse := IndexDirect\<rparr>) \<and>
   Series ''*'' ((NewIndex ''u'' ''t'' False ''direct'' [] ())\<lparr>body := Slice ''a.b.\<newline>a.b.c\<newline>''\<rparr>) =
     Some (Slice [''a.b.c''], (NewIndex ''u'' ''t'' False ''direct'' [] ())
        \<lparr>body := Slice ''a.b.\<newline>a.b.c\<newline>'', reverse := IndexDirect\<rparr>)"
proof -
  let ?I = "(NewIndex ''u'' ''t'' False ''direct'' [] () :: unit IndexFinder)\<lparr>body := Slice ''a.b.\<newline>a.b.c\<newline>''\<rparr>"
  have ok: "conf_ok ?I"
    using NewIndex_conf_ok [of "''u''" "''t''" False "''direct''" "[]" "()"] by (simp add: conf_ok_def)
  have b: "body ?I = Slice ''a.b.\<newline>a.b.c\<newline>''" by simp
  have u: "reverse ?I \<noteq> IndexDirect" "reverse ?I \<noteq> IndexReversed"
    by (simp_all add: NewIndex_def IndexDirect_def IndexReversed_def)
  have c: "checkReverses ?I [] = IndexDirect"
    by (simp add: checkReverses_def NewIndex_def IndexReverse_def)
  have f: "useReverse ''*'' ?I [] = Some (IndexDirect = IndexReversed, ?I\<lparr>reverse := IndexDirect\<rparr>)"
    by (rule useReverse_forced [OF u c]) simp
  from decoder_filters_then_unreverses [OF ok b, of "''*''"]
  obtain r idx1 l s where r: "useReverse ''*'' ?I [] = Some (r, idx1)"
    and ls: "List ''*'' ?I = Some (Slice l, idx1)" "Series ''*'' ?I = Some (Slice s, idx1)"
    and l: "l = map (if r then ReverseBytes else id) (filter (\<lambda>line. line \<noteq> []) (Split ''a.b.\<newline>a.b.c\<newline>'' (CHR 0x0A)))"
    and s: "s = map (if r then ReverseBytes else id)
           (filter (\<lambda>line. last line \<noteq> CHR ''.'') (filter (\<lambda>line. line \<noteq> []) (Split ''a.b.\<newline>a.b.c\<newline>'' (CHR 0x0A))))"
    by blast
  from r f have "Some (r, idx1) = Some (IndexDirect = IndexReversed, ?I\<lparr>reverse := IndexDirect\<rparr>)"
    by (rule trans [OF sym])
  then have rF: "r = False" and i1: "idx1 = ?I\<lparr>reverse := IndexDirect\<rparr>"
    by (simp_all only: option.inject prod.inject codes_distinct)
  have l': "l = [''a.b.'', ''a.b.c'']" unfolding l rF by simp
  have s': "s = [''a.b.c'']" unfolding s rF by simp
  show ?thesis using ok b f ls unfolding l' s' i1 by (simp add: codes_distinct)
qed

text \<open>
  C6 as stated fails when the direction is Reversed: the line \<^verbatim>\<open>.b.a\<close> does not end in
  the separator, is retained by \<^verbatim>\<open>Series()\<close> and is un-reversed to \<^verbatim>\<open>a.b.\<close>, which does;
  \<^verbatim>\<open>List()\<close> returns the same single entry, so its output filtered by the directory
  marker is empty and differs from the output of \<^verbatim>\<open>Series()\<close>.
\<close>

theorem series_returns_directory_entry:
  "Series ''*'' ((NewIndex ''u'' ''t'' False ''reversed'' [] ())
        \<lparr>reverse := IndexReversed, body := Slice ''.b.a\<newline>''\<rparr>) =
     Some (Slice [''a.b.''], (NewIndex ''u'' ''t'' False ''reversed'' [] ())
        \<lparr>reverse := IndexReversed, body := Slice ''.b.a\<newline>''\<rparr>) \<and>
   List ''*'' ((NewIndex ''u'' ''t'' False ''reversed'' [] ())
        \<lparr>reverse := IndexReversed, body := Slice ''.b.a\<newline>''\<rparr>) =
     Some (Slice [''a.b.''], (NewIndex ''u'' ''t'' False ''reversed'' [] ())
        \<lparr>reverse := IndexReversed, body := Slice ''.b.a\<newline>''\<rparr>) \<and>
   last ''a.b.'' = CHR ''.''"
proof -
  let ?I = "(NewIndex ''u'' ''t'' False ''reversed'' [] () :: unit IndexFinder)
        \<lparr>reverse := IndexReversed, body := Slice ''.b.a\<newline>''\<rparr>"
  have r1: "reverse ?I = (if True then IndexReversed else IndexDirect)" by simp
  have "Series ''*'' ?I = Some (Slice [''a.b.''], ?I)"
    unfolding Series_def makeList_resolved [OF r1] by (simp add: retained_def ReverseBytes_def)
  moreover have "List ''*'' ?I = Some (Slice [''a.b.''], ?I)"
    unfolding List_def makeList_resolved [OF r1] by (simp add: retained_def ReverseBytes_def)
  ultimately show ?thesis by simp
qed

end
